theory Spec2Isabelle
  imports Complex_Main "HOL-Library.Product_Lexorder" "HOL-Library.Multiset"
begin

section \<open>Data model of the calculator service\<close>

text \<open>
  The embedding follows \<^verbatim>\<open>src/backend/app/services/calculator.py\<close> and the
  constants of \<^verbatim>\<open>src/backend/app/core/config.py\<close>.

  A Python string is the list of its code points. A pandas table is a list of column
  labels together with a list of typed rows. The labels of the source are Russian
  strings; they are the constructors of \<open>column\<close>, named in English in the order in
  which \<^verbatim>\<open>parse_txt_file\<close> writes them. Python integers are \<open>int\<close>, the float
  columns are \<open>real\<close> (every finite double is a real number and the comparison of
  doubles is the comparison of reals). The cutoff counter starts at 1 and is only ever
  incremented, so it is a \<open>nat\<close>.
\<close>

type_synonym ustring = "nat list"

definition ustr :: "string \<Rightarrow> ustring" where
  "ustr s = map of_char s"

datatype column =
    Col_item_name | Col_unit | Col_quantity | Col_width_m | Col_length_m
  | Col_projection_m | Col_form_type | Col_width_mm | Col_length_mm
  | Col_cutoff | Col_cutoff_type
  | Col_unroll | Col_total_area | Col_projection_area

text \<open>
  The exceptions the service raises. From the source itself: the three
  \<^verbatim>\<open>ValueError\<close>s (bad identifier format, carrying the identifier; missing text
  content; unsupported extension). From Python and pandas: the \<^verbatim>\<open>ValueError\<close> of
  \<^verbatim>\<open>int()\<close> on what is no integer (a text, an empty cell, a digit run beyond the
  conversion limit); the \<^verbatim>\<open>OverflowError\<close> of an integer division whose result
  is too large for a float; the \<^verbatim>\<open>ValueError\<close> of sorting by a label that
  stands for two columns; the \<^verbatim>\<open>TypeError\<close> of \<^verbatim>\<open>int()\<close> on a Series (a
  label that stands for two columns) or on a date, and of a float multiplied by a text
  or a date; the \<^verbatim>\<open>KeyError\<close> of a missing column label and of a dictionary
  lookup with an unknown form type.
\<close>

datatype error =
    ValueError_format ustring
  | ValueError_int
  | ValueError_content
  | ValueError_extension ustring
  | ValueError_label column
  | OverflowError
  | TypeError_series
  | TypeError_int
  | TypeError_multiply
  | KeyError_column column
  | KeyError_form int

text \<open>
  A quantity cell. Token ingestion writes an integer count. A spreadsheet can hold an
  integer, a float, a truth value, a text, a date, or nothing (which pandas reads as
  NaN).
\<close>

datatype cell =
  IntCell int | FloatCell real | BoolCell bool | EmptyCell | TextCell ustring | DateCell

record item =
  item_name :: ustring
  unit_label :: ustring
  quantity :: cell
  width_m :: real
  length_m :: real
  projection_m :: real
  form_type :: int

record row = item +
  width_mm :: int
  length_mm :: int

record cut_row = item +
  cutoff :: nat
  cutoff_type :: int

text \<open>
  The two areas that are products with the quantity are \<open>None\<close> where the product is
  NaN (an empty quantity cell).
\<close>

record report_row = cut_row +
  unroll :: real
  total_area :: "real option"
  projection_area :: "real option"

datatype 'a frame = Frame (columns: "column list") (rows: "'a list")

text \<open>
  The keys of a dictionary, or the distinct elements of a list: each once, at the place
  of its first occurrence (\<open>remdups\<close> keeps the last occurrences, hence the
  reversals).
\<close>

definition first_occurrences :: "'a list \<Rightarrow> 'a list" where
  "first_occurrences xs = rev (remdups (rev xs))"

text \<open>
  \<^verbatim>\<open>pd.DataFrame(data)\<close> for a list of dictionaries that all have the keys \<open>cols\<close>:
  an empty list gives a table with no rows and no columns.
\<close>

definition pd_DataFrame :: "column list \<Rightarrow> 'a list \<Rightarrow> 'a frame" where
  "pd_DataFrame cols data = Frame (if data = [] then [] else cols) data"

definition input_columns :: "column list" where
  "input_columns =
     [Col_item_name, Col_unit, Col_quantity, Col_width_m, Col_length_m,
      Col_projection_m, Col_form_type, Col_width_mm, Col_length_mm]"

text \<open>The first label of \<open>wanted\<close> that the table lacks: the key pandas reports.\<close>

fun missing_column :: "column list \<Rightarrow> column list \<Rightarrow> column option" where
  "missing_column cols [] = None"
| "missing_column cols (c # cs) =
     (if c \<in> set cols then missing_column cols cs else Some c)"

text \<open>
  The labels by which a table is sorted are looked up one after the other: a label
  the table lacks is a \<^verbatim>\<open>KeyError\<close>, a label that stands for more than one column
  is a \<^verbatim>\<open>ValueError\<close>.
\<close>

fun bad_sort_label :: "column list \<Rightarrow> column list \<Rightarrow> error option" where
  "bad_sort_label cols [] = None"
| "bad_sort_label cols (c # cs) =
     (if c \<notin> set cols then Some (KeyError_column c)
      else if 1 < count_list cols c then Some (ValueError_label c)
      else bad_sort_label cols cs)"

subsection \<open>Configuration\<close>

record settings =
  FORM_CAPACITY_1 :: int
  FORM_CAPACITY_2 :: int
  FORM_CAPACITY_3 :: int
  CUTOFF_TYPE_1 :: int
  CUTOFF_TYPE_2 :: int
  CUTOFF_TYPE_3 :: int

definition default_settings :: settings where
  "default_settings =
     \<lparr>FORM_CAPACITY_1 = 15, FORM_CAPACITY_2 = 20, FORM_CAPACITY_3 = 10,
      CUTOFF_TYPE_1 = 8, CUTOFF_TYPE_2 = 9, CUTOFF_TYPE_3 = 10\<rparr>"

record calculator =
  FORM_CAPACITY :: "int \<rightharpoonup> int"
  CUTOFF_TYPES :: "int \<rightharpoonup> int"

text \<open>\<^verbatim>\<open>CalculatorService.__init__\<close>: the two dictionaries keyed 1, 2, 3.\<close>

definition calculator_init :: "settings \<Rightarrow> calculator" where
  "calculator_init s =
     \<lparr>FORM_CAPACITY =
        [1 \<mapsto> FORM_CAPACITY_1 s, 2 \<mapsto> FORM_CAPACITY_2 s, 3 \<mapsto> FORM_CAPACITY_3 s],
      CUTOFF_TYPES =
        [1 \<mapsto> CUTOFF_TYPE_1 s, 2 \<mapsto> CUTOFF_TYPE_2 s, 3 \<mapsto> CUTOFF_TYPE_3 s]\<rparr>"

definition calculator_service :: calculator where
  "calculator_service = calculator_init default_settings"

subsection \<open>Python's text tables and conversions\<close>

text \<open>
  Python classifies characters by the Unicode database: \<^verbatim>\<open>\w\<close> is
  \<^verbatim>\<open>str.isalnum\<close> or the underscore, \<^verbatim>\<open>\d\<close> is \<^verbatim>\<open>str.isdecimal\<close>, and
  \<^verbatim>\<open>str.split\<close> and \<^verbatim>\<open>str.strip\<close> use \<^verbatim>\<open>str.isspace\<close>. Below code point
  128 the classes are written out here. Above it they are read from the tables of
  \<open>text_env\<close>, which stand for the Unicode database: whether a character is
  alphanumeric, its decimal digit value if it is a decimal digit, whether it is a
  space. The fourth entry is \<^verbatim>\<open>int()\<close> on an arbitrary text, \<open>None\<close> where it raises.
\<close>

datatype digit = D0 | D1 | D2 | D3 | D4 | D5 | D6 | D7 | D8 | D9

fun digit_value :: "digit \<Rightarrow> nat" where
  "digit_value D0 = 0" | "digit_value D1 = 1" | "digit_value D2 = 2" | "digit_value D3 = 3"
| "digit_value D4 = 4" | "digit_value D5 = 5" | "digit_value D6 = 6" | "digit_value D7 = 7"
| "digit_value D8 = 8" | "digit_value D9 = 9"

record text_env =
  uni_alnum :: "nat \<Rightarrow> bool"
  uni_decimal :: "nat \<Rightarrow> digit option"
  uni_space :: "nat \<Rightarrow> bool"
  int_of_text :: "ustring \<Rightarrow> int option"

definition is_digit :: "text_env \<Rightarrow> nat \<Rightarrow> bool" where
  "is_digit T c \<longleftrightarrow> (if c < 128 then 48 \<le> c \<and> c \<le> 57 else uni_decimal T c \<noteq> None)"

definition is_word :: "text_env \<Rightarrow> nat \<Rightarrow> bool" where
  "is_word T c \<longleftrightarrow>
     (if c < 128
      then (48 \<le> c \<and> c \<le> 57) \<or> (65 \<le> c \<and> c \<le> 90) \<or> (97 \<le> c \<and> c \<le> 122) \<or> c = 95
      else uni_alnum T c)"

definition is_space :: "text_env \<Rightarrow> nat \<Rightarrow> bool" where
  "is_space T c \<longleftrightarrow>
     (if c < 128 then (9 \<le> c \<and> c \<le> 13) \<or> (28 \<le> c \<and> c \<le> 32) else uni_space T c)"

definition digit_val :: "text_env \<Rightarrow> nat \<Rightarrow> nat" where
  "digit_val T c =
     (if c < 128 then c - 48
      else (case uni_decimal T c of None \<Rightarrow> 0 | Some d \<Rightarrow> digit_value d))"

text \<open>
  \<^verbatim>\<open>int(x)\<close> on a quantity cell: an integer is itself, a float is truncated towards
  zero, a truth value is 1 or 0, an empty cell (NaN) and a text that is no integer
  literal raise \<^verbatim>\<open>ValueError\<close>, a date raises \<^verbatim>\<open>TypeError\<close>.
\<close>

definition trunc_int :: "real \<Rightarrow> int" where
  "trunc_int x = (if 0 \<le> x then \<lfloor>x\<rfloor> else \<lceil>x\<rceil>)"

definition int_of_cell :: "text_env \<Rightarrow> cell \<Rightarrow> error + int" where
  "int_of_cell T q =
     (case q of
        IntCell n \<Rightarrow> Inr n
      | FloatCell x \<Rightarrow> Inr (trunc_int x)
      | BoolCell b \<Rightarrow> Inr (if b then 1 else 0)
      | EmptyCell \<Rightarrow> Inl ValueError_int
      | TextCell s \<Rightarrow> (case int_of_text T s of None \<Rightarrow> Inl ValueError_int | Some n \<Rightarrow> Inr n)
      | DateCell \<Rightarrow> Inl TypeError_int)"

section \<open>Text, the identifier parser and ingestion\<close>

subsection \<open>Strings and numbers\<close>

text \<open>
  \<^verbatim>\<open>int(digits)\<close> on a run of decimal digits: the decimal value, unless the run is
  longer than the limit of 4300 digits that Python sets for the conversion; then
  \<^verbatim>\<open>int()\<close> raises \<^verbatim>\<open>ValueError\<close>. And \<^verbatim>\<open>str(n)\<close>, in decimal.
\<close>

definition max_str_digits :: nat where
  "max_str_digits = 4300"

definition digits_value :: "text_env \<Rightarrow> ustring \<Rightarrow> nat" where
  "digits_value T ds = fold (\<lambda>c n. 10 * n + digit_val T c) ds 0"

definition py_int :: "text_env \<Rightarrow> ustring \<Rightarrow> error + int" where
  "py_int T ds =
     (if max_str_digits < length ds then Inl ValueError_int else Inr (int (digits_value T ds)))"

fun str_nat :: "nat \<Rightarrow> ustring" where
  "str_nat n = (if n < 10 then [48 + n] else str_nat (n div 10) @ [48 + n mod 10])"

declare str_nat.simps [simp del]

definition py_str :: "int \<Rightarrow> ustring" where
  "py_str i = (if i < 0 then 45 # str_nat (nat (- i)) else str_nat (nat i))"

text \<open>
  \<^verbatim>\<open>s.strip()\<close>, \<^verbatim>\<open>s.split('\n')\<close> (which keeps empty pieces) and
  \<^verbatim>\<open>s.split()\<close> (the maximal runs of characters that are not spaces).
\<close>

definition py_strip :: "text_env \<Rightarrow> ustring \<Rightarrow> ustring" where
  "py_strip T s = rev (dropWhile (is_space T) (rev (dropWhile (is_space T) s)))"

fun split_on :: "nat \<Rightarrow> ustring \<Rightarrow> ustring \<Rightarrow> ustring list" where
  "split_on sep cur [] = [cur]"
| "split_on sep cur (c # cs) =
     (if c = sep then cur # split_on sep [] cs else split_on sep (cur @ [c]) cs)"

fun split_ws :: "text_env \<Rightarrow> ustring \<Rightarrow> ustring \<Rightarrow> ustring list" where
  "split_ws T cur [] = (if cur = [] then [] else [cur])"
| "split_ws T cur (c # cs) =
     (if is_space T c then (if cur = [] then [] else [cur]) @ split_ws T [] cs
      else split_ws T (cur @ [c]) cs)"

definition py_split :: "text_env \<Rightarrow> ustring \<Rightarrow> ustring list" where
  "py_split T s = split_ws T [] s"

subsection \<open>The regular expression of \<^verbatim>\<open>parse_item_name\<close>\<close>

text \<open>
  \<^verbatim>\<open>re.match(r'(\w+)_(\d+)x(\d+)x(\d+)_(\d+)', item_name)\<close>. The pattern is matched
  from the first character by backtracking; it is not anchored at the end. A matcher
  returns its successes in the order in which backtracking tries them, and the match is
  the first success. \<open>splits P\<close> is a greedy \<^verbatim>\<open>+\<close> over the class \<open>P\<close>: the
  longest run first, then each shorter one, with what is left of the string. The
  underscore is code point 95 and the letter x is 120.
\<close>

fun splits :: "('a \<Rightarrow> bool) \<Rightarrow> 'a list \<Rightarrow> ('a list \<times> 'a list) list" where
  "splits P [] = []"
| "splits P (c # cs) =
     (if P c then map (\<lambda>(a, r). (c # a, r)) (splits P cs) @ [([c], cs)] else [])"

fun lit :: "'a \<Rightarrow> 'a list \<Rightarrow> 'a list list" where
  "lit c [] = []"
| "lit c (d # ds) = (if d = c then [ds] else [])"

text \<open>The part after the name: \<^verbatim>\<open>_(\d+)x(\d+)x(\d+)_(\d+)\<close>.\<close>

definition match_dims :: "text_env \<Rightarrow> ustring \<Rightarrow> (ustring \<times> ustring \<times> ustring \<times> ustring) list" where
  "match_dims T r1 =
     [(w, l, p, f).
        r2 \<leftarrow> lit 95 r1, (w, r3) \<leftarrow> splits (is_digit T) r2,
        r4 \<leftarrow> lit 120 r3, (l, r5) \<leftarrow> splits (is_digit T) r4,
        r6 \<leftarrow> lit 120 r5, (p, r7) \<leftarrow> splits (is_digit T) r6,
        r8 \<leftarrow> lit 95 r7, (f, r9) \<leftarrow> splits (is_digit T) r8]"

definition re_matches ::
  "text_env \<Rightarrow> ustring \<Rightarrow> (ustring \<times> ustring \<times> ustring \<times> ustring \<times> ustring) list" where
  "re_matches T s =
     [(name, w, l, p, f). (name, r1) \<leftarrow> splits (is_word T) s, (w, l, p, f) \<leftarrow> match_dims T r1]"

definition re_match ::
  "text_env \<Rightarrow> ustring \<Rightarrow> (ustring \<times> ustring \<times> ustring \<times> ustring \<times> ustring) option" where
  "re_match T s = (case re_matches T s of [] \<Rightarrow> None | m # _ \<Rightarrow> Some m)"

record parsed =
  parsed_name :: ustring
  parsed_width_mm :: int
  parsed_length_mm :: int
  parsed_projection_mm :: int
  parsed_form_type :: int

text \<open>
  The dictionary is built in the order width, length, projection, form type; the first
  \<^verbatim>\<open>int()\<close> that raises ends the call.
\<close>

definition parse_item_name :: "text_env \<Rightarrow> ustring \<Rightarrow> error + parsed" where
  "parse_item_name T item =
     (case re_match T item of
        None \<Rightarrow> Inl (ValueError_format item)
      | Some (name, width, len, projection, ftype) \<Rightarrow>
          (case py_int T width of
             Inl e \<Rightarrow> Inl e
           | Inr w \<Rightarrow>
               (case py_int T len of
                  Inl e \<Rightarrow> Inl e
                | Inr l \<Rightarrow>
                    (case py_int T projection of
                       Inl e \<Rightarrow> Inl e
                     | Inr p \<Rightarrow>
                         (case py_int T ftype of
                            Inl e \<Rightarrow> Inl e
                          | Inr f \<Rightarrow>
                              Inr \<lparr>parsed_name = name, parsed_width_mm = w,
                                   parsed_length_mm = l, parsed_projection_mm = p,
                                   parsed_form_type = f\<rparr>)))))"

subsection \<open>Floating point\<close>

text \<open>
  The float columns are computed in IEEE double arithmetic, which the embedding does
  not model. The four operations the service uses are parameters: the true division of
  two integers, Python's \<^verbatim>\<open>round(x, 2)\<close> on a float, the product of two doubles,
  and the rounding of a pandas column to two decimals.

  One effect of the arithmetic is modelled: the division of an integer by 1000 raises
  \<^verbatim>\<open>OverflowError\<close> when the correctly rounded quotient is no finite double, that
  is when the quotient reaches the midpoint between the largest double and \<open>2 ^ 1024\<close>.
\<close>

record float_ops =
  true_div :: "int \<Rightarrow> int \<Rightarrow> real"
  round2 :: "real \<Rightarrow> real"
  fmul :: "real \<Rightarrow> real \<Rightarrow> real"
  series_round2 :: "real \<Rightarrow> real"

definition float_overflow :: "int \<Rightarrow> bool" where
  "float_overflow a \<longleftrightarrow> 1000 * (2 ^ 1024 - 2 ^ 970) \<le> \<bar>a\<bar>"

definition div_1000 :: "float_ops \<Rightarrow> int \<Rightarrow> error + real" where
  "div_1000 fp a = (if float_overflow a then Inl OverflowError else Inr (true_div fp a 1000))"

subsection \<open>\<^verbatim>\<open>parse_txt_file\<close>\<close>

definition tokens :: "text_env \<Rightarrow> ustring \<Rightarrow> ustring list" where
  "tokens T content =
     concat (map (\<lambda>line. py_split T (py_strip T line)) (split_on 10 [] (py_strip T content)))"

text \<open>
  \<^verbatim>\<open>item_counts[item] = item_counts.get(item, 0) + 1\<close> on a dictionary, which keeps
  its keys in the order of their first insertion.
\<close>

fun count_item :: "(ustring \<times> int) list \<Rightarrow> ustring \<Rightarrow> (ustring \<times> int) list" where
  "count_item [] item = [(item, 1)]"
| "count_item ((k, n) # rest) item =
     (if k = item then (k, n + 1) # rest else (k, n) # count_item rest item)"

definition count_items :: "ustring list \<Rightarrow> (ustring \<times> int) list" where
  "count_items items = fold (\<lambda>item item_counts. count_item item_counts item) items []"

text \<open>
  One record of \<^verbatim>\<open>data\<close>. The three divisions by 1000 come first, in the order
  width, length, projection; each can raise. The unit label is the Russian
  abbreviation for pieces (the code points 1096, 1090 and the full stop).
\<close>

definition unit_pieces :: ustring where
  "unit_pieces = [1096, 1090, 46]"

definition make_record :: "float_ops \<Rightarrow> parsed \<Rightarrow> int \<Rightarrow> error + row" where
  "make_record fp p n =
     (case div_1000 fp (parsed_width_mm p) of
        Inl e \<Rightarrow> Inl e
      | Inr w_m \<Rightarrow>
          (case div_1000 fp (parsed_length_mm p) of
             Inl e \<Rightarrow> Inl e
           | Inr l_m \<Rightarrow>
               (case div_1000 fp (parsed_projection_mm p) of
                  Inl e \<Rightarrow> Inl e
                | Inr p_m \<Rightarrow>
                    Inr \<lparr>item_name =
                           parsed_name p @ [95] @ py_str (parsed_width_mm p) @ [120]
                             @ py_str (parsed_length_mm p),
                         unit_label = unit_pieces,
                         quantity = IntCell n,
                         width_m = round2 fp w_m,
                         length_m = round2 fp l_m,
                         projection_m = round2 fp p_m,
                         form_type = parsed_form_type p,
                         width_mm = parsed_width_mm p,
                         length_mm = parsed_length_mm p\<rparr>)))"

text \<open>
  The loop over \<^verbatim>\<open>item_counts.items()\<close>: the first identifier that does not parse,
  or whose record cannot be built, raises, and the records collected so far are lost
  with the call.
\<close>

fun record_loop ::
  "float_ops \<Rightarrow> text_env \<Rightarrow> (ustring \<times> int) list \<Rightarrow> row list \<Rightarrow> error + row list" where
  "record_loop fp T [] data = Inr data"
| "record_loop fp T ((item, n) # rest) data =
     (case parse_item_name T item of
        Inl e \<Rightarrow> Inl e
      | Inr p \<Rightarrow>
          (case make_record fp p n of
             Inl e \<Rightarrow> Inl e
           | Inr r \<Rightarrow> record_loop fp T rest (data @ [r])))"

definition parse_txt_file :: "float_ops \<Rightarrow> text_env \<Rightarrow> ustring \<Rightarrow> error + row frame" where
  "parse_txt_file fp T content =
     (case record_loop fp T (count_items (tokens T content)) [] of
        Inl e \<Rightarrow> Inl e
      | Inr data \<Rightarrow> Inr (pd_DataFrame input_columns data))"

subsection \<open>\<^verbatim>\<open>parse_xlsx_file\<close>\<close>

text \<open>
  The table \<^verbatim>\<open>pd.read_excel\<close> returns is an input of the model: its column labels,
  which \<^verbatim>\<open>read_excel\<close> makes distinct, and its rows. A quantity cell is any
  \<open>cell\<close>; the cells of the other columns are well typed (text for the name and the
  unit, finite floats for the metre columns, an integer for the form type), so a sheet
  with an empty or mistyped cell outside the quantity column is not an input of the
  model.

  The quantity column may come under its short label, which is renamed; when the
  sheet has both labels, the renamed table has two columns under the one label. The
  selection of the nine columns raises \<^verbatim>\<open>KeyError\<close> for a missing label and keeps
  every column of a selected label. The millimetre columns are the metre columns
  times 1000, truncated towards zero by \<^verbatim>\<open>astype(int)\<close> (for products within the
  64-bit range).
\<close>

datatype xlsx_column = Short_quantity | Known column | Other ustring

definition rename_column :: "xlsx_column \<Rightarrow> xlsx_column" where
  "rename_column c = (if c = Short_quantity then Known Col_quantity else c)"

definition to_row :: "float_ops \<Rightarrow> item \<Rightarrow> row" where
  "to_row fp r =
     \<lparr>item_name = item_name r, unit_label = unit_label r, quantity = quantity r,
      width_m = width_m r, length_m = length_m r, projection_m = projection_m r,
      form_type = form_type r,
      width_mm = trunc_int (fmul fp (width_m r) 1000),
      length_mm = trunc_int (fmul fp (length_m r) 1000)\<rparr>"

fun missing_xlsx :: "xlsx_column list \<Rightarrow> column list \<Rightarrow> column option" where
  "missing_xlsx cols [] = None"
| "missing_xlsx cols (c # cs) =
     (if Known c \<in> set cols then missing_xlsx cols cs else Some c)"

definition parse_xlsx_file :: "float_ops \<Rightarrow> xlsx_column list \<times> item list \<Rightarrow> error + row frame" where
  "parse_xlsx_file fp tbl =
     (let renamed = map rename_column (fst tbl);
          cols = renamed @ filter (\<lambda>c. c \<notin> set renamed) [Known Col_width_mm, Known Col_length_mm]
      in
      case missing_xlsx renamed [Col_width_m, Col_length_m] of
        Some c \<Rightarrow> Inl (KeyError_column c)
      | None \<Rightarrow>
          (case missing_xlsx cols input_columns of
             Some c \<Rightarrow> Inl (KeyError_column c)
           | None \<Rightarrow>
               Inr (Frame
                      (concat (map (\<lambda>c. replicate (count_list cols (Known c)) c) input_columns))
                      (map (to_row fp) (snd tbl)))))"

section \<open>Cutoff assignment\<close>

subsection \<open>Sorting and grouping\<close>

text \<open>
  \<^verbatim>\<open>df.sort_values([form type, width_mm, length m], ascending=[True, True, False])\<close>.
  With several keys pandas sorts lexicographically and stably; a descending key is the
  reversed order of that column, here the negated length.
\<close>

definition sort_key3 :: "row \<Rightarrow> int \<times> int \<times> real" where
  "sort_key3 r = (form_type r, width_mm r, - length_m r)"

definition sort_values :: "row frame \<Rightarrow> error + row frame" where
  "sort_values df =
     (case bad_sort_label (columns df) [Col_form_type, Col_width_mm, Col_length_m] of
        Some e \<Rightarrow> Inl e
      | None \<Rightarrow> Inr (Frame (columns df) (sort_key sort_key3 (rows df))))"

text \<open>
  \<^verbatim>\<open>df.groupby([form type, width_mm])\<close>, iterated: the distinct keys in ascending
  order, each with the rows of that key in the order of the table.
\<close>

definition group_key :: "row \<Rightarrow> int \<times> int" where
  "group_key r = (form_type r, width_mm r)"

definition groupby :: "row list \<Rightarrow> ((int \<times> int) \<times> row list) list" where
  "groupby rs =
     map (\<lambda>k. (k, filter (\<lambda>r. group_key r = k) rs)) (sort (remdups (map group_key rs)))"

subsection \<open>The packing loop of one group\<close>

text \<open>
  \<^verbatim>\<open>int(row[quantity])\<close>: the lookup raises \<^verbatim>\<open>KeyError\<close> when the table has no
  quantity column; when the label stands for two columns the lookup gives a Series,
  on which \<^verbatim>\<open>int()\<close> raises \<^verbatim>\<open>TypeError\<close>; otherwise the cell is converted.
\<close>

definition row_count :: "text_env \<Rightarrow> column list \<Rightarrow> row \<Rightarrow> error + int" where
  "row_count T cols r =
     (if Col_quantity \<notin> set cols then Inl (KeyError_column Col_quantity)
      else if 1 < count_list cols Col_quantity then Inl TypeError_series
      else int_of_cell T (quantity r))"

text \<open>
  The loop over \<^verbatim>\<open>group.iterrows()\<close> with its three variables
  \<^verbatim>\<open>subgroups\<close>, \<^verbatim>\<open>current_subgroup\<close>, \<^verbatim>\<open>current_total\<close>, and the
  closing of the open subgroup after the loop. A row whose quantity does not convert
  ends the loop with the exception.
\<close>

fun pack_rows ::
  "text_env \<Rightarrow> column list \<Rightarrow> int \<Rightarrow> row list \<Rightarrow> row list list \<Rightarrow> row list \<Rightarrow> int
     \<Rightarrow> error + row list list" where
  "pack_rows T cols capacity [] subgroups current_subgroup current_total =
     Inr (if current_subgroup \<noteq> [] then subgroups @ [current_subgroup] else subgroups)"
| "pack_rows T cols capacity (r # rest) subgroups current_subgroup current_total =
     (case row_count T cols r of
        Inl e \<Rightarrow> Inl e
      | Inr cnt \<Rightarrow>
          if current_total + cnt > capacity then
            pack_rows T cols capacity rest
              (if current_subgroup \<noteq> [] then subgroups @ [current_subgroup] else subgroups)
              [r] cnt
          else
            pack_rows T cols capacity rest subgroups (current_subgroup @ [r])
              (current_total + cnt))"

definition subgroups_of :: "text_env \<Rightarrow> column list \<Rightarrow> int \<Rightarrow> row list \<Rightarrow> error + row list list" where
  "subgroups_of T cols capacity grp = pack_rows T cols capacity grp [] [] 0"

subsection \<open>Numbering and marking\<close>

text \<open>
  \<^verbatim>\<open>max(range(len(subgroup)), key=...)\<close>: Python keeps the first index whose key is
  maximal, replacing the candidate only by a strictly greater key. On an empty
  subgroup Python raises; \<open>pack_rows\<close> never closes an empty subgroup.
\<close>

definition max_length_idx :: "row list \<Rightarrow> nat" where
  "max_length_idx subgroup =
     fold (\<lambda>i best. if length_m (subgroup ! best) < length_m (subgroup ! i) then i else best)
       [1..<length subgroup] 0"

type_synonym new_row = "row \<times> nat \<times> int"

definition mark_subgroup :: "int \<Rightarrow> nat \<Rightarrow> row list \<Rightarrow> new_row list" where
  "mark_subgroup ctype cutoff_counter subgroup =
     map (\<lambda>(i, r). (r, cutoff_counter, if i = max_length_idx subgroup then 0 else ctype))
       (enumerate 0 subgroup)"

fun emit_subgroups :: "int \<Rightarrow> row list list \<Rightarrow> new_row list \<times> nat \<Rightarrow> new_row list \<times> nat" where
  "emit_subgroups ctype [] st = st"
| "emit_subgroups ctype (subgroup # rest) (new_rows, cutoff_counter) =
     emit_subgroups ctype rest
       (new_rows @ mark_subgroup ctype cutoff_counter subgroup, cutoff_counter + 1)"

text \<open>
  The loop over the groups. Both dictionary lookups raise \<^verbatim>\<open>KeyError\<close> for a form
  type that is not a key; then the rows of the group are packed, which can raise as
  well. Nothing is returned in either case.
\<close>

fun group_loop ::
  "text_env \<Rightarrow> column list \<Rightarrow> calculator \<Rightarrow> ((int \<times> int) \<times> row list) list
     \<Rightarrow> new_row list \<times> nat \<Rightarrow> error + new_row list \<times> nat" where
  "group_loop T cols svc [] st = Inr st"
| "group_loop T cols svc (((ftype, w), grp) # rest) st =
     (case FORM_CAPACITY svc ftype of
        None \<Rightarrow> Inl (KeyError_form ftype)
      | Some capacity \<Rightarrow>
          (case CUTOFF_TYPES svc ftype of
             None \<Rightarrow> Inl (KeyError_form ftype)
           | Some ctype \<Rightarrow>
               (case subgroups_of T cols capacity grp of
                  Inl e \<Rightarrow> Inl e
                | Inr subgroups \<Rightarrow>
                    group_loop T cols svc rest (emit_subgroups ctype subgroups st))))"

text \<open>
  The rows collected in \<^verbatim>\<open>new_rows\<close>: each input row with its cutoff id and its
  cutoff type.
\<close>

definition assign_rows :: "text_env \<Rightarrow> calculator \<Rightarrow> row frame \<Rightarrow> error + new_row list" where
  "assign_rows T svc df =
     (case sort_values df of
        Inl e \<Rightarrow> Inl e
      | Inr sorted_df \<Rightarrow>
          (case group_loop T (columns sorted_df) svc (groupby (rows sorted_df)) ([], 1) of
             Inl e \<Rightarrow> Inl e
           | Inr (new_rows, cutoff_counter) \<Rightarrow> Inr new_rows))"

text \<open>
  \<^verbatim>\<open>pd.DataFrame(new_rows).drop([width_mm, length_mm], axis=1, errors='ignore')\<close>.
  Each element of \<^verbatim>\<open>new_rows\<close> is a dictionary, whose keys are the labels of the
  table, each once, and the two new labels.
\<close>

definition to_cut_row :: "new_row \<Rightarrow> cut_row" where
  "to_cut_row nr =
     (case nr of (r, c, t) \<Rightarrow>
        \<lparr>item_name = item_name r, unit_label = unit_label r, quantity = quantity r,
         width_m = width_m r, length_m = length_m r, projection_m = projection_m r,
         form_type = form_type r, cutoff = c, cutoff_type = t\<rparr>)"

definition drop_mm :: "column list \<Rightarrow> column list" where
  "drop_mm cols = filter (\<lambda>c. c \<noteq> Col_width_mm \<and> c \<noteq> Col_length_mm) cols"

definition assign_cutoffs :: "text_env \<Rightarrow> calculator \<Rightarrow> row frame \<Rightarrow> error + cut_row frame" where
  "assign_cutoffs T svc df =
     (case assign_rows T svc df of
        Inl e \<Rightarrow> Inl e
      | Inr new_rows \<Rightarrow>
          (let result_df =
                 pd_DataFrame
                   (first_occurrences (columns df) @
                      filter (\<lambda>c. c \<notin> set (columns df)) [Col_cutoff, Col_cutoff_type])
                   new_rows
           in Inr (Frame (drop_mm (columns result_df)) (map to_cut_row (rows result_df)))))"

section \<open>Derived columns, column order and the whole pipeline\<close>

text \<open>
  \<^verbatim>\<open>calculate_derived_columns\<close> reads the width and length columns, then the
  quantity, then the projection; the first label the table lacks is the
  \<^verbatim>\<open>KeyError\<close>. The product with the quantity column is computed between the
  lookups of the quantity and of the projection: a float times a text or a date
  raises \<^verbatim>\<open>TypeError\<close>, times an empty cell it is NaN, and an integer or a truth
  value is converted to a double. (The labels of the table are distinct here, as in
  every table \<^verbatim>\<open>assign_cutoffs\<close> returns.)
\<close>

definition cell_float :: "cell \<Rightarrow> real option" where
  "cell_float q =
     (case q of
        IntCell n \<Rightarrow> Some (real_of_int n)
      | FloatCell x \<Rightarrow> Some x
      | BoolCell b \<Rightarrow> Some (if b then 1 else 0)
      | _ \<Rightarrow> None)"

definition multipliable :: "cell \<Rightarrow> bool" where
  "multipliable q \<longleftrightarrow> (case q of TextCell s \<Rightarrow> False | DateCell \<Rightarrow> False | _ \<Rightarrow> True)"

definition derive :: "float_ops \<Rightarrow> cut_row \<Rightarrow> report_row" where
  "derive fp r =
     (let u = series_round2 fp (fmul fp (width_m r) (length_m r)) in
      \<lparr>item_name = item_name r, unit_label = unit_label r, quantity = quantity r,
       width_m = width_m r, length_m = length_m r, projection_m = projection_m r,
       form_type = form_type r, cutoff = cutoff r, cutoff_type = cutoff_type r,
       unroll = u,
       total_area =
         map_option (\<lambda>q. series_round2 fp (fmul fp u q)) (cell_float (quantity r)),
       projection_area =
         map_option (\<lambda>q. series_round2 fp (fmul fp (fmul fp (length_m r) (projection_m r)) q))
           (cell_float (quantity r))\<rparr>)"

definition calculate_derived_columns :: "float_ops \<Rightarrow> cut_row frame \<Rightarrow> error + report_row frame" where
  "calculate_derived_columns fp df =
     (case missing_column (columns df) [Col_width_m, Col_length_m, Col_quantity] of
        Some c \<Rightarrow> Inl (KeyError_column c)
      | None \<Rightarrow>
          if \<not> list_all (\<lambda>r. multipliable (quantity r)) (rows df) then Inl TypeError_multiply
          else if Col_projection_m \<notin> set (columns df) then Inl (KeyError_column Col_projection_m)
          else
            Inr (Frame
                   (columns df @
                      filter (\<lambda>c. c \<notin> set (columns df))
                        [Col_unroll, Col_total_area, Col_projection_area])
                   (map (derive fp) (rows df))))"

definition report_columns :: "column list" where
  "report_columns =
     [Col_item_name, Col_unit, Col_quantity, Col_width_m, Col_length_m,
      Col_unroll, Col_total_area, Col_projection_m, Col_projection_area,
      Col_form_type, Col_cutoff, Col_cutoff_type]"

definition reorder_columns :: "report_row frame \<Rightarrow> error + report_row frame" where
  "reorder_columns df =
     (case missing_column (columns df) report_columns of
        Some c \<Rightarrow> Inl (KeyError_column c)
      | None \<Rightarrow> Inr (Frame report_columns (rows df)))"

text \<open>
  \<^verbatim>\<open>process_file\<close>. The file at \<^verbatim>\<open>file_path\<close> is represented by the table
  \<^verbatim>\<open>pd.read_excel\<close> reads from it. The \<^verbatim>\<open>except\<close> clause logs and re-raises, so
  an error of any stage is the error of the call.
\<close>

definition process_file ::
  "float_ops \<Rightarrow> text_env \<Rightarrow> calculator \<Rightarrow> xlsx_column list \<times> item list \<Rightarrow> ustring
     \<Rightarrow> ustring option \<Rightarrow> error + report_row frame" where
  "process_file fp T svc file file_extension content =
     (case (if file_extension = ustr ''.txt'' then
              (case content of
                 None \<Rightarrow> Inl ValueError_content
               | Some c \<Rightarrow> parse_txt_file fp T c)
            else if file_extension = ustr ''.xlsx'' then parse_xlsx_file fp file
            else Inl (ValueError_extension file_extension)) of
        Inl e \<Rightarrow> Inl e
      | Inr df \<Rightarrow>
          (case assign_cutoffs T svc df of
             Inl e \<Rightarrow> Inl e
           | Inr df1 \<Rightarrow>
               (case calculate_derived_columns fp df1 of
                  Inl e \<Rightarrow> Inl e
                | Inr df2 \<Rightarrow> reorder_columns df2)))"

section \<open>Notions for the statements\<close>

subsection \<open>The closed bins, and the cutoffs read off a result\<close>

text \<open>
  A form type is usable when both dictionaries have it as a key. A quantity cell is
  convertible when \<^verbatim>\<open>int()\<close> returns on it; \<open>count_of\<close> is the integer the packing
  loop then reads from a row, and \<open>cell_count\<close> the same for a cell.
\<close>

definition forms_known :: "calculator \<Rightarrow> int \<Rightarrow> bool" where
  "forms_known svc ftype \<longleftrightarrow> FORM_CAPACITY svc ftype \<noteq> None \<and> CUTOFF_TYPES svc ftype \<noteq> None"

definition convertible :: "text_env \<Rightarrow> cell \<Rightarrow> bool" where
  "convertible T q \<longleftrightarrow> (case int_of_cell T q of Inl e \<Rightarrow> False | Inr n \<Rightarrow> True)"

definition cell_count :: "text_env \<Rightarrow> cell \<Rightarrow> int" where
  "cell_count T q = (case int_of_cell T q of Inl e \<Rightarrow> 0 | Inr n \<Rightarrow> n)"

definition count_of :: "text_env \<Rightarrow> row \<Rightarrow> int" where
  "count_of T r = cell_count T (quantity r)"

text \<open>
  The subgroups the group loop closes, in the order in which it visits them, each with
  the cutoff-type constant looked up for its group: \<open>bins_of\<close> for a list of groups,
  \<open>closed_bins\<close> for a table. \<open>marked_from c\<close> is what \<open>emit_subgroups\<close> appends
  for such a list when the counter stands at \<open>c\<close>.
\<close>

definition bins_of ::
  "text_env \<Rightarrow> column list \<Rightarrow> calculator \<Rightarrow> ((int \<times> int) \<times> row list) list
     \<Rightarrow> (int \<times> row list) list" where
  "bins_of T cols svc groups =
     concat (map (\<lambda>((ftype, w), grp).
        (case FORM_CAPACITY svc ftype of
           None \<Rightarrow> []
         | Some capacity \<Rightarrow>
            (case CUTOFF_TYPES svc ftype of
               None \<Rightarrow> []
             | Some ctype \<Rightarrow>
                (case subgroups_of T cols capacity grp of
                   Inl e \<Rightarrow> []
                 | Inr subgroups \<Rightarrow> map (Pair ctype) subgroups)))) groups)"

definition closed_bins :: "text_env \<Rightarrow> calculator \<Rightarrow> row frame \<Rightarrow> (int \<times> row list) list" where
  "closed_bins T svc df = bins_of T (columns df) svc (groupby (sort_key sort_key3 (rows df)))"

fun marked_from :: "nat \<Rightarrow> (int \<times> row list) list \<Rightarrow> new_row list" where
  "marked_from c [] = []"
| "marked_from c ((ctype, subgroup) # rest) =
     mark_subgroup ctype c subgroup @ marked_from (Suc c) rest"

text \<open>
  The cutoff with id \<open>i\<close> of a result: its rows, in the order of the table. For the
  rows still carrying their millimetre columns, \<open>cutoff_members\<close> gives the input
  records of the cutoff.
\<close>

definition members :: "cut_row frame \<Rightarrow> nat \<Rightarrow> cut_row list" where
  "members res i = filter (\<lambda>y. cutoff y = i) (rows res)"

definition cutoff_members :: "new_row list \<Rightarrow> nat \<Rightarrow> row list" where
  "cutoff_members out i = map fst (filter (\<lambda>nr. fst (snd nr) = i) out)"

text \<open>
  The quantity of a record as the number the table shows: the cell itself where it is
  a number (a truth value counting as 1 or 0), and 0 for a cell that is no number.
\<close>

definition cell_value :: "cell \<Rightarrow> real" where
  "cell_value q = (case cell_float q of None \<Rightarrow> 0 | Some x \<Rightarrow> x)"

subsection \<open>The procedure as the specification words it\<close>

text \<open>
  Section 4.3 of the specification, steps 1 to 3, written independently of the code.
  Step 1: the order (form type ascending, width ascending, length descending).
\<close>

definition spec_before :: "row \<Rightarrow> row \<Rightarrow> bool" where
  "spec_before a b \<longleftrightarrow>
     form_type a < form_type b \<or>
     (form_type a = form_type b \<and>
        (width_mm a < width_mm b \<or> (width_mm a = width_mm b \<and> length_m b \<le> length_m a)))"

text \<open>
  Step 2: the sorted sequence is cut into its maximal runs of equal (form type, width);
  nothing is reordered.
\<close>

function spec_groups :: "row list \<Rightarrow> row list list" where
  "spec_groups [] = []"
| "spec_groups (r # rs) =
     (r # takeWhile (\<lambda>x. group_key x = group_key r) rs)
       # spec_groups (dropWhile (\<lambda>x. group_key x = group_key r) rs)"
  by pat_completeness auto
termination
  by (relation "measure length") (auto simp: length_dropWhile_le less_Suc_eq_le)

text \<open>
  Step 3: sequential first-fit accumulation with an open bin and its running total. A
  record that would push the total over the capacity closes the open bin, if it is not
  empty, and seeds the next one; any other record joins the open bin; the bin left
  open at the end is closed. What a record adds to the total is a parameter \<open>wt\<close>:
  the specification adds the record's quantity.
\<close>

fun first_fit ::
  "('a \<Rightarrow> 'w::{plus,ord}) \<Rightarrow> 'w \<Rightarrow> 'a list \<Rightarrow> 'w \<Rightarrow> 'a list \<Rightarrow> 'a list list" where
  "first_fit wt capacity bin tot [] = (if bin = [] then [] else [bin])"
| "first_fit wt capacity bin tot (r # rs) =
     (if tot + wt r > capacity
      then (if bin = [] then [] else [bin]) @ first_fit wt capacity [r] (wt r) rs
      else first_fit wt capacity (bin @ [r]) (tot + wt r) rs)"

fun spec_group_bins ::
  "(row \<Rightarrow> 'w::{zero,plus,ord}) \<Rightarrow> (int \<Rightarrow> 'w) \<Rightarrow> row list \<Rightarrow> row list list" where
  "spec_group_bins wt cap [] = []"
| "spec_group_bins wt cap (r # rs) = first_fit wt (cap (form_type r)) [] 0 (r # rs)"

definition spec_bins ::
  "(row \<Rightarrow> 'w::{zero,plus,ord}) \<Rightarrow> (int \<Rightarrow> 'w) \<Rightarrow> row list \<Rightarrow> row list list" where
  "spec_bins wt cap s = concat (map (spec_group_bins wt cap) (spec_groups s))"

subsection \<open>Small tables\<close>

text \<open>
  Five records in the shape \<^verbatim>\<open>parse_txt_file\<close> produces: three of form 1 and width
  500 with quantities 10, 8 and 3, one of form 1 and width 400 with quantity 20 (more
  than the capacity 15), one of form 2.
\<close>

definition mk_row :: "string \<Rightarrow> cell \<Rightarrow> int \<Rightarrow> int \<Rightarrow> int \<Rightarrow> row" where
  "mk_row n q f w l =
     \<lparr>item_name = ustr n, unit_label = unit_pieces, quantity = q,
      width_m = real_of_int w / 1000, length_m = real_of_int l / 1000,
      projection_m = 1 / 20, form_type = f, width_mm = w, length_mm = l\<rparr>"

definition example_rows :: "row list" where
  "example_rows =
     [mk_row ''tray_500x300'' (IntCell 10) 1 500 300,
      mk_row ''tray_500x250'' (IntCell 8) 1 500 250,
      mk_row ''lid_400x600'' (IntCell 20) 1 400 600,
      mk_row ''tray_500x350'' (IntCell 3) 1 500 350,
      mk_row ''box_100x500'' (IntCell 2) 2 100 500]"

definition example_df :: "row frame" where
  "example_df = Frame input_columns example_rows"

definition mk_cut :: "string \<Rightarrow> cell \<Rightarrow> int \<Rightarrow> int \<Rightarrow> int \<Rightarrow> nat \<Rightarrow> int \<Rightarrow> cut_row" where
  "mk_cut n q f w l c t =
     \<lparr>item_name = ustr n, unit_label = unit_pieces, quantity = q,
      width_m = real_of_int w / 1000, length_m = real_of_int l / 1000,
      projection_m = 1 / 20, form_type = f, cutoff = c, cutoff_type = t\<rparr>"

definition cut_columns :: "column list" where
  "cut_columns =
     [Col_item_name, Col_unit, Col_quantity, Col_width_m, Col_length_m,
      Col_projection_m, Col_form_type, Col_cutoff, Col_cutoff_type]"

definition example_result :: "cut_row frame" where
  "example_result =
     Frame cut_columns
       [mk_cut ''lid_400x600'' (IntCell 20) 1 400 600 1 0,
        mk_cut ''tray_500x350'' (IntCell 3) 1 500 350 2 0,
        mk_cut ''tray_500x300'' (IntCell 10) 1 500 300 2 8,
        mk_cut ''tray_500x250'' (IntCell 8) 1 500 250 3 0,
        mk_cut ''box_100x500'' (IntCell 2) 2 100 500 4 0]"

definition example_cap :: "int \<Rightarrow> int" where
  "example_cap f = (if f = 1 then 15 else if f = 2 then 20 else 10)"

text \<open>
  Two tables as a spreadsheet gives them. In the first, two records of form 1 and
  width 500 have the quantity 7.9 each. In the second, a record of quantity 20 is
  followed, in the sorted order, by one of quantity -10.
\<close>

definition fraction_rows :: "row list" where
  "fraction_rows =
     [mk_row ''tray_500x500'' (FloatCell (79 / 10)) 1 500 500,
      mk_row ''tray_500x250'' (FloatCell (79 / 10)) 1 500 250]"

definition fraction_df :: "row frame" where
  "fraction_df = Frame input_columns fraction_rows"

definition negative_rows :: "row list" where
  "negative_rows =
     [mk_row ''tray_500x500'' (IntCell 20) 1 500 500,
      mk_row ''tray_500x250'' (IntCell (- 10)) 1 500 250]"

definition negative_df :: "row frame" where
  "negative_df = Frame input_columns negative_rows"

text \<open>
  An excerpt of Python's text tables, for running the examples: the Cyrillic letters
  are alphanumeric, the Arabic-Indic digits are decimal digits, the no-break space and
  the next-line character are spaces, and \<^verbatim>\<open>int()\<close> is given on the texts that are
  runs of ASCII digits of at most 4300 characters and on no other text.
\<close>

definition arabic_digit :: "nat \<Rightarrow> digit option" where
  "arabic_digit c =
     (if c = 1632 then Some D0 else if c = 1633 then Some D1 else if c = 1634 then Some D2
      else if c = 1635 then Some D3 else if c = 1636 then Some D4 else if c = 1637 then Some D5
      else if c = 1638 then Some D6 else if c = 1639 then Some D7 else if c = 1640 then Some D8
      else if c = 1641 then Some D9 else None)"

definition example_env :: text_env where
  "example_env =
     \<lparr>uni_alnum = (\<lambda>c. (1040 \<le> c \<and> c \<le> 1103) \<or> (1632 \<le> c \<and> c \<le> 1641)),
      uni_decimal = arabic_digit,
      uni_space = (\<lambda>c. c = 133 \<or> c = 160),
      int_of_text =
        (\<lambda>s. if s \<noteq> [] \<and> length s \<le> 4300 \<and> list_all (\<lambda>c. 48 \<le> c \<and> c \<le> 57) s
             then Some (int (fold (\<lambda>c n. 10 * n + (c - 48)) s 0)) else None)\<rparr>"

definition fraction_result :: "cut_row frame" where
  "fraction_result =
     Frame cut_columns
       [mk_cut ''tray_500x500'' (FloatCell (79 / 10)) 1 500 500 1 0,
        mk_cut ''tray_500x250'' (FloatCell (79 / 10)) 1 500 250 1 8]"

definition negative_result :: "cut_row frame" where
  "negative_result =
     Frame cut_columns
       [mk_cut ''tray_500x500'' (IntCell 20) 1 500 500 1 0,
        mk_cut ''tray_500x250'' (IntCell (- 10)) 1 500 250 1 8]"

subsection \<open>The identifier grammar as the specification states it\<close>

text \<open>
  \<^verbatim>\<open>^(\w+)_(\d+)x(\d+)x(\d+)_(\d+)$\<close>: a string conforms when the whole of it is a
  name of word characters, an underscore, three runs of digits separated by \<open>x\<close>, an
  underscore and a run of digits. \<open>reconstruct\<close> writes the parsed fields back in that
  shape, the numbers in decimal.
\<close>

definition digit_run :: "text_env \<Rightarrow> ustring \<Rightarrow> bool" where
  "digit_run T a \<longleftrightarrow> a \<noteq> [] \<and> list_all (is_digit T) a"

definition word_run :: "text_env \<Rightarrow> ustring \<Rightarrow> bool" where
  "word_run T a \<longleftrightarrow> a \<noteq> [] \<and> list_all (is_word T) a"

definition item_identifier :: "ustring \<Rightarrow> ustring \<Rightarrow> ustring \<Rightarrow> ustring \<Rightarrow> ustring \<Rightarrow> ustring" where
  "item_identifier name w l p f = name @ [95] @ w @ [120] @ l @ [120] @ p @ [95] @ f"

definition conforms :: "text_env \<Rightarrow> ustring \<Rightarrow> bool" where
  "conforms T s \<longleftrightarrow>
     (\<exists>name w l p f. s = item_identifier name w l p f \<and> word_run T name \<and>
        digit_run T w \<and> digit_run T l \<and> digit_run T p \<and> digit_run T f)"

definition reconstruct :: "parsed \<Rightarrow> ustring" where
  "reconstruct p =
     item_identifier (parsed_name p) (py_str (parsed_width_mm p)) (py_str (parsed_length_mm p))
       (py_str (parsed_projection_mm p)) (py_str (parsed_form_type p))"

text \<open>
  An identifier that matches the grammar in full and whose width is written with 4301
  digits.
\<close>

definition long_identifier :: ustring where
  "long_identifier = item_identifier (ustr ''tray'') (replicate 4301 49) [51] [53] [49]"

subsection \<open>Notions for ingestion and the pipeline\<close>

text \<open>
  A parsed identifier overflows when one of its three dimensions is too large for the
  division by 1000 that builds its record.
\<close>

definition record_overflows :: "parsed \<Rightarrow> bool" where
  "record_overflows p \<longleftrightarrow>
     float_overflow (parsed_width_mm p) \<or> float_overflow (parsed_length_mm p) \<or>
     float_overflow (parsed_projection_mm p)"

text \<open>
  The three stages \<^verbatim>\<open>process_file\<close> runs on the ingested table, as one function.
\<close>

definition pipeline ::
  "float_ops \<Rightarrow> text_env \<Rightarrow> calculator \<Rightarrow> row frame \<Rightarrow> error + report_row frame" where
  "pipeline fp T svc df =
     (case assign_cutoffs T svc df of
        Inl e \<Rightarrow> Inl e
      | Inr df1 \<Rightarrow>
          (case calculate_derived_columns fp df1 of
             Inl e \<Rightarrow> Inl e
           | Inr df2 \<Rightarrow> reorder_columns df2))"




subsection \<open>Inputs for the examples\<close>

text \<open>
  An instance of the float operations with exact arithmetic and no rounding, to run the
  model on examples. Sheets: one whose quantities are zero and negative, one with a
  quantity written as text, one without rows that carries both quantity labels. Texts:
  three tokens on two lines; a text with a token outside the grammar; a token of an
  unknown form type; and a token whose width is a one followed by 400 zeros.
\<close>

definition ideal_ops :: float_ops where
  "ideal_ops =
     \<lparr>true_div = (\<lambda>a b. real_of_int a / real_of_int b), round2 = (\<lambda>x. x),
      fmul = (\<lambda>x y. x * y), series_round2 = (\<lambda>x. x)\<rparr>"

definition sheet_labels :: "xlsx_column list" where
  "sheet_labels =
     [Known Col_item_name, Known Col_unit, Short_quantity, Known Col_width_m,
      Known Col_length_m, Known Col_projection_m, Known Col_form_type]"

definition mk_item :: "string \<Rightarrow> cell \<Rightarrow> real \<Rightarrow> item" where
  "mk_item n q l =
     \<lparr>item_name = ustr n, unit_label = unit_pieces, quantity = q,
      width_m = 1 / 2, length_m = l, projection_m = 1 / 20, form_type = 1\<rparr>"

definition zero_quantity_file :: "xlsx_column list \<times> item list" where
  "zero_quantity_file =
     (sheet_labels,
      [mk_item ''tray_500x500'' (IntCell 0) (1 / 2),
       mk_item ''tray_500x250'' (IntCell (- 3)) (1 / 4)])"


text \<open>
  The sheets from which the tables \<open>fraction_df\<close> and \<open>negative_df\<close> are ingested.
\<close>

definition fraction_file :: "xlsx_column list \<times> item list" where
  "fraction_file =
     (sheet_labels,
      [mk_item ''tray_500x500'' (FloatCell (79 / 10)) (1 / 2),
       mk_item ''tray_500x250'' (FloatCell (79 / 10)) (1 / 4)])"

definition negative_file :: "xlsx_column list \<times> item list" where
  "negative_file =
     (sheet_labels,
      [mk_item ''tray_500x500'' (IntCell 20) (1 / 2),
       mk_item ''tray_500x250'' (IntCell (- 10)) (1 / 4)])"


definition example_text :: ustring where
  "example_text =
     ustr ''tray_500x300x50_1 tray_500x300x50_1'' @ [10] @ ustr '' tray_500x250x50_1''"

definition malformed_text :: ustring where
  "malformed_text = ustr ''tray_500x300x50_1 panel-100x200x30-1''"


definition overflow_token :: ustring where
  "overflow_token = item_identifier (ustr ''tray'') (49 # replicate 400 48) [51] [53] [49]"

section \<open>Properties of the cutoff assignment\<close>

lemma missing_column_None: "missing_column cols cs = None \<longleftrightarrow> set cs \<subseteq> set cols"
  by (induction cs) auto

lemma bad_sort_label_None:
  "bad_sort_label cols cs = None \<longleftrightarrow> (\<forall>c\<in>set cs. count_list cols c = 1)"
proof (induction cs)
  case Nil
  show ?case by simp
next
  case (Cons c cs)
  have "c \<notin> set cols \<longleftrightarrow> count_list cols c = 0" by (simp add: count_list_0_iff)
  with Cons show ?case by auto
qed

lemma emit_subgroups_eq:
  "emit_subgroups ctype sgs (nr, c) =
     (nr @ marked_from c (map (Pair ctype) sgs), c + length sgs)"
  by (induction sgs arbitrary: nr c) auto

lemma marked_from_append:
  "marked_from c (xs @ ys) = marked_from c xs @ marked_from (c + length xs) ys"
  by (induction xs arbitrary: c) auto

lemma bins_of_Nil [simp]: "bins_of T cols svc [] = []"
  by (simp add: bins_of_def)

lemma bins_of_Cons:
  "FORM_CAPACITY svc ftype = Some capacity \<Longrightarrow> CUTOFF_TYPES svc ftype = Some ctype \<Longrightarrow>
   subgroups_of T cols capacity grp = Inr sgs \<Longrightarrow>
   bins_of T cols svc (((ftype, w), grp) # rest) =
     map (Pair ctype) sgs @ bins_of T cols svc rest"
  by (simp add: bins_of_def)

lemma group_loop_Inr:
  "group_loop T cols svc groups (nr, c) = Inr st \<Longrightarrow>
   st = (nr @ marked_from c (bins_of T cols svc groups), c + length (bins_of T cols svc groups))"
proof (induction groups arbitrary: nr c)
  case Nil
  then show ?case by simp
next
  case (Cons g groups)
  obtain ftype w grp where g: "g = ((ftype, w), grp)" by (metis surj_pair)
  from Cons.prems g obtain capacity ctype sgs where
    cap: "FORM_CAPACITY svc ftype = Some capacity" and ct: "CUTOFF_TYPES svc ftype = Some ctype"
    and sg: "subgroups_of T cols capacity grp = Inr sgs"
    by (auto split: option.splits sum.splits)
  from Cons.prems g cap ct sg have
    "group_loop T cols svc groups
       (nr @ marked_from c (map (Pair ctype) sgs), c + length sgs) = Inr st"
    by (simp add: emit_subgroups_eq)
  from Cons.IH [OF this] show ?case
    by (simp add: g bins_of_Cons [OF cap ct sg] marked_from_append add.assoc)
qed

lemma row_count_Inr: "row_count T cols r = Inr n \<Longrightarrow> n = count_of T r"
  by (auto simp: row_count_def count_of_def cell_count_def split: if_splits)

lemma pack_rows_Inr:
  "pack_rows T cols capacity rs sgs cur tot = Inr out \<Longrightarrow>
   out = sgs @ first_fit (count_of T) capacity cur tot rs"
proof (induction rs arbitrary: sgs cur tot)
  case Nil
  then show ?case by auto
next
  case (Cons r rs)
  from Cons.prems obtain n where n: "row_count T cols r = Inr n"
    by (cases "row_count T cols r") auto
  from row_count_Inr [OF n] have c: "count_of T r = n" by simp
  show ?case
  proof (cases "tot + n > capacity")
    case True
    with Cons.prems n have
      "pack_rows T cols capacity rs (if cur \<noteq> [] then sgs @ [cur] else sgs) [r] n = Inr out"
      by simp
    from Cons.IH [OF this] True c show ?thesis by simp
  next
    case False
    with Cons.prems n have
      "pack_rows T cols capacity rs sgs (cur @ [r]) (tot + n) = Inr out" by simp
    from Cons.IH [OF this] False c show ?thesis by simp
  qed
qed

lemma pack_rows_ok_iff:
  "(\<exists>out. pack_rows T cols capacity rs sgs cur tot = Inr out) \<longleftrightarrow>
   (\<forall>r\<in>set rs. \<exists>n. row_count T cols r = Inr n)"
proof (induction rs arbitrary: sgs cur tot)
  case Nil
  show ?case by simp
next
  case (Cons r rs)
  show ?case
  proof (cases "row_count T cols r")
    case (Inl e)
    then show ?thesis by simp
  next
    case (Inr n)
    then show ?thesis using Cons.IH by simp
  qed
qed

lemma subgroups_of_Inr:
  "subgroups_of T cols capacity grp = Inr sgs \<Longrightarrow>
   sgs = first_fit (count_of T) capacity [] 0 grp"
  unfolding subgroups_of_def by (drule pack_rows_Inr) simp

lemma subgroups_of_ok_iff:
  "(\<exists>sgs. subgroups_of T cols capacity grp = Inr sgs) \<longleftrightarrow>
   (\<forall>r\<in>set grp. \<exists>n. row_count T cols r = Inr n)"
  unfolding subgroups_of_def by (rule pack_rows_ok_iff)

lemma group_loop_ok_iff:
  "(\<exists>st'. group_loop T cols svc groups st = Inr st') \<longleftrightarrow>
   (\<forall>g \<in> set groups. forms_known svc (fst (fst g)) \<and>
      (\<forall>r\<in>set (snd g). \<exists>n. row_count T cols r = Inr n))"
proof (induction T cols svc groups st rule: group_loop.induct)
  case (1 T cols svc st)
  show ?case by simp
next
  case (2 T cols svc ftype w grp rest st)
  show ?case
  proof (cases "FORM_CAPACITY svc ftype")
    case None
    then show ?thesis by (simp add: forms_known_def)
  next
    case cap: (Some capacity)
    show ?thesis
    proof (cases "CUTOFF_TYPES svc ftype")
      case None
      with cap show ?thesis by (simp add: forms_known_def)
    next
      case ct: (Some ctype)
      show ?thesis
      proof (cases "subgroups_of T cols capacity grp")
        case (Inl e)
        with subgroups_of_ok_iff [of T cols capacity grp]
        have "\<not> (\<forall>r\<in>set grp. \<exists>n. row_count T cols r = Inr n)" by simp
        with cap ct Inl show ?thesis by simp
      next
        case (Inr sgs)
        with subgroups_of_ok_iff [of T cols capacity grp]
        have "\<forall>r\<in>set grp. \<exists>n. row_count T cols r = Inr n" by blast
        with cap ct Inr "2.IH" [OF cap ct Inr] show ?thesis by (simp add: forms_known_def)
      qed
    qed
  qed
qed

lemma sorted_key_dropWhile_greater:
  fixes f :: "'a \<Rightarrow> 'k::linorder"
  assumes "sorted (map f (r # rs))" and "x \<in> set (dropWhile (\<lambda>y. f y = f r) rs)"
  shows "f r < f x"
  using assms
proof (induction rs)
  case Nil
  then show ?case by simp
next
  case (Cons y ys)
  show ?case
  proof (cases "f y = f r")
    case True
    with Cons show ?thesis by auto
  next
    case False
    with Cons.prems have "f r < f y" by auto
    moreover from Cons.prems False have "x = y \<or> x \<in> set ys" by auto
    moreover from Cons.prems have "\<forall>z\<in>set ys. f y \<le> f z" by auto
    ultimately show ?thesis by auto
  qed
qed

lemma sorted_key_dropWhile:
  fixes f :: "'a \<Rightarrow> 'k::linorder"
  assumes "sorted (map f (r # rs))"
  shows "sorted (map f (dropWhile (\<lambda>y. f y = f r) rs))"
proof -
  have "map f rs = map f (takeWhile (\<lambda>y. f y = f r) rs) @ map f (dropWhile (\<lambda>y. f y = f r) rs)"
    by (metis map_append takeWhile_dropWhile_id)
  moreover from assms have "sorted (map f rs)" by simp
  ultimately show ?thesis by (simp add: sorted_append)
qed

lemma filter_key_sorted_head:
  fixes f :: "'a \<Rightarrow> 'k::linorder"
  assumes "sorted (map f (r # rs))"
  shows "filter (\<lambda>y. f y = f r) (r # rs) = r # takeWhile (\<lambda>y. f y = f r) rs"
proof -
  let ?P = "\<lambda>y. f y = f r"
  have a: "filter ?P (takeWhile ?P rs @ dropWhile ?P rs) =
        filter ?P (takeWhile ?P rs) @ filter ?P (dropWhile ?P rs)"
    by (rule filter_append)
  have b: "filter ?P rs = filter ?P (takeWhile ?P rs) @ filter ?P (dropWhile ?P rs)"
    using a unfolding takeWhile_dropWhile_id .
  have c: "filter ?P (takeWhile ?P rs) = takeWhile ?P rs"
    unfolding filter_id_conv using set_takeWhileD by fast
  have d: "filter ?P (dropWhile ?P rs) = []"
    unfolding filter_empty_conv using sorted_key_dropWhile_greater [OF assms] by fastforce
  have "filter ?P (r # rs) = r # filter ?P rs" by simp
  also have "\<dots> = r # takeWhile ?P rs" unfolding b c d by simp
  finally show ?thesis .
qed

lemma filter_key_sorted_tail:
  fixes f :: "'a \<Rightarrow> 'k::linorder"
  assumes "sorted (map f (r # rs))" and "f r < k"
  shows "filter (\<lambda>y. f y = k) (r # rs) = filter (\<lambda>y. f y = k) (dropWhile (\<lambda>y. f y = f r) rs)"
proof -
  let ?P = "\<lambda>y. f y = f r"
  let ?Q = "\<lambda>y. f y = k"
  have a: "filter ?Q (takeWhile ?P rs @ dropWhile ?P rs) =
        filter ?Q (takeWhile ?P rs) @ filter ?Q (dropWhile ?P rs)"
    by (rule filter_append)
  have b: "filter ?Q rs = filter ?Q (takeWhile ?P rs) @ filter ?Q (dropWhile ?P rs)"
    using a unfolding takeWhile_dropWhile_id .
  have c: "filter ?Q (takeWhile ?P rs) = []"
    unfolding filter_empty_conv using set_takeWhileD assms(2) by fastforce
  have "filter ?Q (r # rs) = filter ?Q rs" using assms(2) by simp
  also have "\<dots> = filter ?Q (dropWhile ?P rs)" unfolding b c by simp
  finally show ?thesis .
qed

lemma keys_sorted_head:
  fixes f :: "'a \<Rightarrow> 'k::linorder"
  assumes "sorted (map f (r # rs))"
  shows "sort (remdups (map f (r # rs))) =
         f r # sort (remdups (map f (dropWhile (\<lambda>y. f y = f r) rs)))"
proof (rule sorted_distinct_set_unique)
  let ?D = "dropWhile (\<lambda>y. f y = f r) rs"
  show "sorted (sort (remdups (map f (r # rs))))" by (rule sorted_sort)
  show "distinct (sort (remdups (map f (r # rs))))" by (simp only: distinct_sort distinct_remdups)
  have gt: "f r < k" if "k \<in> f ` set ?D" for k
    using that sorted_key_dropWhile_greater [OF assms] by blast
  have s: "set (sort (remdups (map f ?D))) = f ` set ?D" by simp
  have "sorted (sort (remdups (map f ?D)))" by (rule sorted_sort)
  moreover have "\<forall>k\<in>set (sort (remdups (map f ?D))). f r \<le> k"
    unfolding s using gt by (blast intro: less_imp_le)
  ultimately show "sorted (f r # sort (remdups (map f ?D)))"
    by (simp only: sorted_simps)
  have "f r \<notin> f ` set ?D" using gt by blast
  moreover have "distinct (sort (remdups (map f ?D)))" by (simp only: distinct_sort distinct_remdups)
  ultimately show "distinct (f r # sort (remdups (map f ?D)))"
    using s by (simp only: distinct.simps) simp
  have "set (takeWhile (\<lambda>y. f y = f r) rs @ ?D) = set rs"
    by (simp only: takeWhile_dropWhile_id)
  then have u: "set rs = set (takeWhile (\<lambda>y. f y = f r) rs) \<union> set ?D"
    by (simp only: set_append)
  have "f ` set (takeWhile (\<lambda>y. f y = f r) rs) \<subseteq> {f r}"
    using set_takeWhileD by fast
  with u have "insert (f r) (f ` set rs) = insert (f r) (f ` set ?D)"
    by blast
  moreover have "set (sort (remdups (map f (r # rs)))) = insert (f r) (f ` set rs)"
    by (simp only: set_sort set_remdups set_map list.set image_insert)
  moreover have "set (f r # sort (remdups (map f ?D))) = insert (f r) (f ` set ?D)" by simp
  ultimately show "set (sort (remdups (map f (r # rs)))) = set (f r # sort (remdups (map f ?D)))"
    by (simp only:)
qed

lemma groupby_Cons_sorted:
  assumes "sorted (map group_key (r # rs))"
  shows "groupby (r # rs) =
         (group_key r, r # takeWhile (\<lambda>x. group_key x = group_key r) rs)
           # groupby (dropWhile (\<lambda>x. group_key x = group_key r) rs)"
proof -
  let ?D = "dropWhile (\<lambda>x. group_key x = group_key r) rs"
  let ?ks = "sort (remdups (map group_key ?D))"
  have tail: "filter (\<lambda>x. group_key x = k) (r # rs) = filter (\<lambda>x. group_key x = k) ?D"
    if "k \<in> set ?ks" for k
  proof -
    from that obtain x where "x \<in> set ?D" "k = group_key x" by auto
    with sorted_key_dropWhile_greater [OF assms] have "group_key r < k" by blast
    from filter_key_sorted_tail [OF assms this] show ?thesis .
  qed
  have m: "map (\<lambda>k. (k, filter (\<lambda>x. group_key x = k) (r # rs))) ?ks =
           map (\<lambda>k. (k, filter (\<lambda>x. group_key x = k) ?D)) ?ks"
    by (rule map_cong [OF refl]) (simp only: tail)
  have "groupby (r # rs) =
        map (\<lambda>k. (k, filter (\<lambda>x. group_key x = k) (r # rs))) (group_key r # ?ks)"
    unfolding groupby_def keys_sorted_head [OF assms] ..
  also have "\<dots> = (group_key r, filter (\<lambda>x. group_key x = group_key r) (r # rs))
                    # map (\<lambda>k. (k, filter (\<lambda>x. group_key x = k) (r # rs))) ?ks"
    by (simp only: list.map)
  also have "\<dots> = (group_key r, r # takeWhile (\<lambda>x. group_key x = group_key r) rs) # groupby ?D"
    unfolding m filter_key_sorted_head [OF assms] groupby_def ..
  finally show ?thesis .
qed

lemma groupby_spec_groups:
  "sorted (map group_key s) \<Longrightarrow>
   groupby s = map (\<lambda>g. (group_key (hd g), g)) (spec_groups s)"
proof (induction s rule: spec_groups.induct)
  case 1
  show ?case by (simp add: groupby_def)
next
  case (2 r rs)
  from sorted_key_dropWhile [OF "2.prems"] "2.IH" groupby_Cons_sorted [OF "2.prems"]
  show ?case by simp
qed

lemma concat_spec_groups: "concat (spec_groups s) = s"
  by (induction s rule: spec_groups.induct) auto

lemma first_fit_nonempty:
  "b \<in> set (first_fit wt capacity cur tot rs) \<Longrightarrow> b \<noteq> []"
  by (induction rs arbitrary: cur tot) (auto split: if_splits)

lemma concat_first_fit: "concat (first_fit wt capacity cur tot rs) = cur @ rs"
  by (induction rs arbitrary: cur tot) auto

lemma first_fit_capacity:
  fixes wt :: "'a \<Rightarrow> int"
  assumes "b \<in> set (first_fit wt capacity cur tot rs)"
    and "tot = sum_list (map wt cur)"
    and "2 \<le> length cur \<longrightarrow> sum_list (map wt cur) \<le> capacity"
    and "2 \<le> length b"
  shows "sum_list (map wt b) \<le> capacity"
  using assms
proof (induction rs arbitrary: cur tot)
  case Nil
  then show ?case by (auto split: if_splits)
next
  case (Cons r rs)
  show ?case
  proof (cases "tot + wt r > capacity")
    case True
    with Cons.prems(1) have "b = cur \<or> b \<in> set (first_fit wt capacity [r] (wt r) rs)"
      by (auto split: if_splits)
    then show ?thesis
    proof
      assume "b = cur"
      with Cons.prems show ?thesis by simp
    next
      assume "b \<in> set (first_fit wt capacity [r] (wt r) rs)"
      from Cons.IH [OF this] Cons.prems(4) show ?thesis by simp
    qed
  next
    case False
    with Cons.prems(1) have "b \<in> set (first_fit wt capacity (cur @ [r]) (tot + wt r) rs)"
      by simp
    from Cons.IH [OF this] False Cons.prems(2,4) show ?thesis by simp
  qed
qed

lemma first_fit_alone:
  fixes wt :: "'a \<Rightarrow> int"
  assumes "b \<in> set (first_fit wt capacity cur tot rs)"
    and "tot = sum_list (map wt cur)"
    and "\<forall>x\<in>set (cur @ rs). 0 \<le> wt x"
    and "\<forall>x\<in>set cur. capacity < wt x \<longrightarrow> cur = [x]"
    and "x \<in> set b" and "capacity < wt x"
  shows "b = [x]"
  using assms
proof (induction rs arbitrary: cur tot)
  case Nil
  then show ?case by (auto split: if_splits)
next
  case (Cons r rs)
  show ?case
  proof (cases "tot + wt r > capacity")
    case True
    with Cons.prems(1) have "b = cur \<or> b \<in> set (first_fit wt capacity [r] (wt r) rs)"
      by (auto split: if_splits)
    then show ?thesis
    proof
      assume "b = cur"
      with Cons.prems show ?thesis by simp
    next
      assume "b \<in> set (first_fit wt capacity [r] (wt r) rs)"
      from Cons.IH [OF this] Cons.prems(3,5,6) show ?thesis by simp
    qed
  next
    case False
    with Cons.prems(1) have b: "b \<in> set (first_fit wt capacity (cur @ [r]) (tot + wt r) rs)"
      by simp
    have "\<And>q. q \<in> set (map wt cur) \<Longrightarrow> 0 \<le> q" using Cons.prems(3) by auto
    then have nonneg: "0 \<le> tot"
      unfolding Cons.prems(2) by (rule sum_list_nonneg)
    have r: "0 \<le> wt r" using Cons.prems(3) by simp
    have "\<forall>y\<in>set (cur @ [r]). capacity < wt y \<longrightarrow> cur @ [r] = [y]"
    proof (intro ballI impI)
      fix y assume y: "y \<in> set (cur @ [r])" and over: "capacity < wt y"
      show "cur @ [r] = [y]"
      proof (cases "y \<in> set cur")
        case True
        with Cons.prems(4) over have "cur = [y]" by blast
        with Cons.prems(2) have "tot = wt y" by simp
        with over r False show ?thesis by simp
      next
        case False
        with y have "y = r" by simp
        with over nonneg \<open>\<not> capacity < tot + wt r\<close> show ?thesis by simp
      qed
    qed
    with Cons.IH [OF b] Cons.prems(2,3,5,6) show ?thesis by simp
  qed
qed

lemma first_fit_subset:
  "b \<in> set (first_fit wt capacity cur tot rs) \<Longrightarrow> set b \<subseteq> set cur \<union> set rs"
  using concat_first_fit [of wt capacity cur tot rs]
  by (metis Sup_upper UN_iff Un_iff image_eqI set_append set_concat subsetI)

lemma length_mark_subgroup [simp]: "length (mark_subgroup ctype c sg) = length sg"
  by (simp add: mark_subgroup_def)

lemma nth_mark_subgroup:
  "i < length sg \<Longrightarrow>
   mark_subgroup ctype c sg ! i = (sg ! i, c, if i = max_length_idx sg then 0 else ctype)"
  by (simp add: mark_subgroup_def nth_enumerate_eq)

lemma map_fst_mark_subgroup [simp]: "map fst (mark_subgroup ctype c sg) = sg"
  by (rule nth_equalityI) (simp_all add: nth_mark_subgroup)

lemma cutoff_mark_subgroup:
  "nr \<in> set (mark_subgroup ctype c sg) \<Longrightarrow> fst (snd nr) = c"
  by (auto simp: mark_subgroup_def in_set_enumerate_eq)

lemma map_fst_marked_from: "map fst (marked_from c bins) = concat (map snd bins)"
  by (induction c bins rule: marked_from.induct) auto

lemma cutoff_marked_from:
  "nr \<in> set (marked_from c bins) \<Longrightarrow> c \<le> fst (snd nr) \<and> fst (snd nr) < c + length bins"
proof (induction c bins rule: marked_from.induct)
  case (1 c)
  then show ?case by simp
next
  case (2 c ctype subgroup rest)
  from "2.prems" have "nr \<in> set (mark_subgroup ctype c subgroup) \<or> nr \<in> set (marked_from (Suc c) rest)"
    by simp
  then show ?case
  proof
    assume "nr \<in> set (mark_subgroup ctype c subgroup)"
    then show ?thesis by (simp add: cutoff_mark_subgroup)
  next
    assume "nr \<in> set (marked_from (Suc c) rest)"
    from "2.IH" [OF this] show ?thesis by simp
  qed
qed

lemma filter_marked_from:
  "filter (\<lambda>nr. fst (snd nr) = i) (marked_from c bins) =
     (if c \<le> i \<and> i < c + length bins
      then mark_subgroup (fst (bins ! (i - c))) i (snd (bins ! (i - c))) else [])"
proof (induction c bins rule: marked_from.induct)
  case (1 c)
  show ?case by auto
next
  case (2 c ctype subgroup rest)
  have here: "filter (\<lambda>nr. fst (snd nr) = i) (mark_subgroup ctype c subgroup) =
              (if i = c then mark_subgroup ctype c subgroup else [])"
    by (auto simp: filter_empty_conv filter_id_conv dest: cutoff_mark_subgroup)
  show ?case
  proof (cases "i = c")
    case True
    with here "2.IH" show ?thesis by simp
  next
    case False
    then have "c \<le> i \<Longrightarrow> i - c = Suc (i - Suc c)" by simp
    with False show ?thesis by (auto simp: here "2.IH")
  qed
qed

lemma max_index_fold:
  fixes k :: "nat \<Rightarrow> real"
  defines "F \<equiv> (\<lambda>i best. if k best < k i then i else best)"
  shows "fold F [1..<Suc n] 0 \<le> n \<and>
         (\<forall>j\<le>n. k j \<le> k (fold F [1..<Suc n] 0)) \<and>
         (\<forall>j<fold F [1..<Suc n] 0. k j < k (fold F [1..<Suc n] 0))"
proof (induction n)
  case 0
  show ?case by simp
next
  case (Suc n)
  define b where "b = fold F [1..<Suc n] 0"
  have "[1..<Suc (Suc n)] = [1..<Suc n] @ [Suc n]" by (rule upt_Suc_append) simp
  then have step: "fold F [1..<Suc (Suc n)] 0 = F (Suc n) b" by (simp only: fold_append b_def) simp
  from Suc have IH: "b \<le> n" "\<forall>j\<le>n. k j \<le> k b" "\<forall>j<b. k j < k b"
    unfolding b_def by blast+
  show ?case
  proof (cases "k b < k (Suc n)")
    case True
    then have b': "F (Suc n) b = Suc n" by (simp add: F_def)
    have "k j \<le> k (Suc n)" if "j \<le> Suc n" for j
    proof (cases "j = Suc n")
      case False
      with that have "j \<le> n" by arith
      with IH(2) have "k j \<le> k b" by blast
      with True show ?thesis by linarith
    qed simp
    moreover have "k j < k (Suc n)" if "j < Suc n" for j
    proof -
      from that have "j \<le> n" by arith
      with IH(2) have "k j \<le> k b" by blast
      with True show ?thesis by linarith
    qed
    ultimately show ?thesis unfolding step b' by blast
  next
    case False
    then have b': "F (Suc n) b = b" by (simp add: F_def)
    have "k j \<le> k b" if "j \<le> Suc n" for j
    proof (cases "j = Suc n")
      case True
      with False show ?thesis by simp
    next
      case False
      with that have "j \<le> n" by arith
      with IH(2) show ?thesis by blast
    qed
    moreover from IH(1) have "b \<le> Suc n" by simp
    ultimately show ?thesis unfolding step b' using IH(3) by blast
  qed
qed

lemma max_length_idx_props:
  assumes "sg \<noteq> []"
  shows "max_length_idx sg < length sg"
    and "\<forall>j<length sg. length_m (sg ! j) \<le> length_m (sg ! max_length_idx sg)"
    and "\<forall>j<max_length_idx sg. length_m (sg ! j) < length_m (sg ! max_length_idx sg)"
proof -
  from assms obtain n where n: "length sg = Suc n" by (cases sg) auto
  note m = max_index_fold [of "\<lambda>i. length_m (sg ! i)" n]
  have eq: "max_length_idx sg =
        fold (\<lambda>i best. if length_m (sg ! best) < length_m (sg ! i) then i else best) [1..<Suc n] 0"
    by (simp only: max_length_idx_def n)
  from m show "max_length_idx sg < length sg" unfolding eq n less_Suc_eq_le by blast
  from m show "\<forall>j<length sg. length_m (sg ! j) \<le> length_m (sg ! max_length_idx sg)"
    unfolding eq n less_Suc_eq_le by blast
  from m show "\<forall>j<max_length_idx sg. length_m (sg ! j) < length_m (sg ! max_length_idx sg)"
    unfolding eq by blast
qed

lemma row_count_ok_iff:
  "(\<exists>n. row_count T cols r = Inr n) \<longleftrightarrow>
   count_list cols Col_quantity = 1 \<and> convertible T (quantity r)"
proof -
  have "Col_quantity \<notin> set cols \<longleftrightarrow> count_list cols Col_quantity = 0"
    by (simp add: count_list_0_iff)
  then show ?thesis
    by (cases "int_of_cell T (quantity r)") (auto simp: row_count_def convertible_def)
qed

lemma groupby_all:
  "(\<forall>g\<in>set (groupby rs). P (fst (fst g)) \<and> (\<forall>r\<in>set (snd g). Q r)) \<longleftrightarrow>
   (\<forall>r\<in>set rs. P (form_type r) \<and> Q r)"
proof
  assume a: "\<forall>g\<in>set (groupby rs). P (fst (fst g)) \<and> (\<forall>r\<in>set (snd g). Q r)"
  show "\<forall>r\<in>set rs. P (form_type r) \<and> Q r"
  proof
    fix r assume r: "r \<in> set rs"
    then have "(group_key r, filter (\<lambda>x. group_key x = group_key r) rs) \<in> set (groupby rs)"
      by (simp add: groupby_def)
    from a [rule_format, OF this] r show "P (form_type r) \<and> Q r"
      by (simp add: group_key_def)
  qed
next
  assume a: "\<forall>r\<in>set rs. P (form_type r) \<and> Q r"
  show "\<forall>g\<in>set (groupby rs). P (fst (fst g)) \<and> (\<forall>r\<in>set (snd g). Q r)"
  proof
    fix g assume "g \<in> set (groupby rs)"
    then obtain r where "r \<in> set rs" "g = (group_key r, filter (\<lambda>x. group_key x = group_key r) rs)"
      by (auto simp: groupby_def)
    with a show "P (fst (fst g)) \<and> (\<forall>r\<in>set (snd g). Q r)"
      by (simp add: group_key_def)
  qed
qed

lemma sort_values_Inr:
  "bad_sort_label (columns df) [Col_form_type, Col_width_mm, Col_length_m] = None \<Longrightarrow>
   sort_values df = Inr (Frame (columns df) (sort_key sort_key3 (rows df)))"
  by (simp add: sort_values_def del: bad_sort_label.simps)

lemma sort_values_Inl:
  "bad_sort_label (columns df) [Col_form_type, Col_width_mm, Col_length_m] = Some e \<Longrightarrow>
   sort_values df = Inl e"
  by (simp add: sort_values_def del: bad_sort_label.simps)

lemma assign_rows_sorted:
  assumes "bad_sort_label (columns df) [Col_form_type, Col_width_mm, Col_length_m] = None"
  shows "assign_rows T svc df =
     (case group_loop T (columns df) svc (groupby (sort_key sort_key3 (rows df))) ([], 1) of
        Inl e \<Rightarrow> Inl e
      | Inr (new_rows, cutoff_counter) \<Rightarrow> Inr new_rows)"
  by (simp add: assign_rows_def sort_values_Inr [OF assms] del: bad_sort_label.simps)

lemma assign_rows_unsorted:
  assumes "bad_sort_label (columns df) [Col_form_type, Col_width_mm, Col_length_m] = Some e"
  shows "assign_rows T svc df = Inl e"
  by (simp add: assign_rows_def sort_values_Inl [OF assms] del: bad_sort_label.simps)

lemma assign_rows_Inr:
  assumes "assign_rows T svc df = Inr out"
  shows "out = marked_from 1 (closed_bins T svc df)"
proof (cases "bad_sort_label (columns df) [Col_form_type, Col_width_mm, Col_length_m]")
  case (Some e)
  from assign_rows_unsorted [OF this] assms show ?thesis by simp
next
  case None
  from assms obtain nr c where
    "group_loop T (columns df) svc (groupby (sort_key sort_key3 (rows df))) ([], 1) = Inr (nr, c)"
    and "out = nr"
    unfolding assign_rows_sorted [OF None] by (auto split: sum.splits)
  with group_loop_Inr [OF this(1)] show ?thesis by (simp add: closed_bins_def)
qed

lemma assign_rows_ok_iff:
  "(\<exists>out. assign_rows T svc df = Inr out) \<longleftrightarrow>
   bad_sort_label (columns df) [Col_form_type, Col_width_mm, Col_length_m] = None \<and>
   (\<forall>r\<in>set (rows df). forms_known svc (form_type r) \<and>
      (\<exists>n. row_count T (columns df) r = Inr n))"
proof (cases "bad_sort_label (columns df) [Col_form_type, Col_width_mm, Col_length_m]")
  case (Some e)
  from assign_rows_unsorted [OF this] Some show ?thesis by simp
next
  case None
  let ?gs = "groupby (sort_key sort_key3 (rows df))"
  have "(\<exists>out. assign_rows T svc df = Inr out) \<longleftrightarrow>
        (\<exists>st. group_loop T (columns df) svc ?gs ([], 1) = Inr st)"
    unfolding assign_rows_sorted [OF None]
    by (cases "group_loop T (columns df) svc ?gs ([], 1)") auto
  also have "\<dots> \<longleftrightarrow> (\<forall>g\<in>set ?gs. forms_known svc (fst (fst g)) \<and>
      (\<forall>r\<in>set (snd g). \<exists>n. row_count T (columns df) r = Inr n))"
    by (rule group_loop_ok_iff)
  also have "\<dots> \<longleftrightarrow> (\<forall>r\<in>set (sort_key sort_key3 (rows df)). forms_known svc (form_type r) \<and>
      (\<exists>n. row_count T (columns df) r = Inr n))"
    by (rule groupby_all)
  finally show ?thesis using None by simp
qed

lemma cutoff_to_cut_row [simp]: "cutoff (to_cut_row nr) = fst (snd nr)"
  and cutoff_type_to_cut_row [simp]: "cutoff_type (to_cut_row nr) = snd (snd nr)"
  and quantity_to_cut_row [simp]: "quantity (to_cut_row nr) = quantity (fst nr)"
  and form_type_to_cut_row [simp]: "form_type (to_cut_row nr) = form_type (fst nr)"
  and length_m_to_cut_row [simp]: "length_m (to_cut_row nr) = length_m (fst nr)"
  by (cases nr; simp add: to_cut_row_def)+

lemma assign_cutoffs_Inr:
  assumes "assign_cutoffs T svc df = Inr res"
  shows "\<exists>out. assign_rows T svc df = Inr out \<and> rows res = map to_cut_row out"
  using assms by (auto simp: assign_cutoffs_def pd_DataFrame_def Let_def split: sum.splits)

lemma assign_cutoffs_ok_iff:
  "(\<exists>res. assign_cutoffs T svc df = Inr res) \<longleftrightarrow> (\<exists>out. assign_rows T svc df = Inr out)"
  by (auto simp: assign_cutoffs_def Let_def split: sum.splits)

lemma members_eq:
  assumes "assign_cutoffs T svc df = Inr res"
  shows "members res i =
     (if 1 \<le> i \<and> i \<le> length (closed_bins T svc df)
      then map to_cut_row
             (mark_subgroup (fst (closed_bins T svc df ! (i - 1))) i (snd (closed_bins T svc df ! (i - 1))))
      else [])"
proof -
  from assign_cutoffs_Inr [OF assms] obtain out where
    out: "assign_rows T svc df = Inr out" and r: "rows res = map to_cut_row out" by blast
  have "members res i = map to_cut_row (filter (\<lambda>nr. fst (snd nr) = i) out)"
    by (simp add: members_def r filter_map o_def)
  also have "filter (\<lambda>nr. fst (snd nr) = i) out =
     (if 1 \<le> i \<and> i < 1 + length (closed_bins T svc df)
      then mark_subgroup (fst (closed_bins T svc df ! (i - 1))) i (snd (closed_bins T svc df ! (i - 1)))
      else [])"
    unfolding assign_rows_Inr [OF out] by (rule filter_marked_from)
  finally show ?thesis by (auto simp: less_Suc_eq_le)
qed

lemma cutoff_range:
  assumes "assign_cutoffs T svc df = Inr res" and "x \<in> set (rows res)"
  shows "1 \<le> cutoff x \<and> cutoff x \<le> length (closed_bins T svc df)"
proof -
  from assign_cutoffs_Inr [OF assms(1)] obtain out where
    out: "assign_rows T svc df = Inr out" and r: "rows res = map to_cut_row out" by blast
  from assms(2) r obtain nr where "nr \<in> set out" "x = to_cut_row nr" by auto
  with cutoff_marked_from [of nr 1 "closed_bins T svc df"] assign_rows_Inr [OF out]
  show ?thesis by auto
qed

lemma bins_of_Cons_eq:
  "bins_of T cols svc (((f, w), grp) # gs) =
     (case FORM_CAPACITY svc f of
        None \<Rightarrow> []
      | Some capacity \<Rightarrow>
          (case CUTOFF_TYPES svc f of
             None \<Rightarrow> []
           | Some ctype \<Rightarrow>
               (case subgroups_of T cols capacity grp of
                  Inl e \<Rightarrow> []
                | Inr subgroups \<Rightarrow> map (Pair ctype) subgroups))) @ bins_of T cols svc gs"
  by (simp add: bins_of_def)

lemma bins_of_mem:
  assumes "(ctype, sg) \<in> set (bins_of T cols svc gs)"
  shows "\<exists>ftype w grp capacity. ((ftype, w), grp) \<in> set gs \<and>
           FORM_CAPACITY svc ftype = Some capacity \<and> CUTOFF_TYPES svc ftype = Some ctype \<and>
           sg \<in> set (first_fit (count_of T) capacity [] 0 grp)"
  using assms
proof (induction gs)
  case Nil
  then show ?case by simp
next
  case (Cons g gs)
  obtain f w' grp' where g: "g = ((f, w'), grp')" by (metis surj_pair)
  show ?case
  proof (cases "(ctype, sg) \<in> set (bins_of T cols svc gs)")
    case True
    from Cons.IH [OF this] show ?thesis by auto
  next
    case False
    with Cons.prems have h: "(ctype, sg) \<in> set
       (case FORM_CAPACITY svc f of
          None \<Rightarrow> []
        | Some capacity \<Rightarrow>
            (case CUTOFF_TYPES svc f of
               None \<Rightarrow> []
             | Some ctype \<Rightarrow>
                 (case subgroups_of T cols capacity grp' of
                    Inl e \<Rightarrow> []
                  | Inr subgroups \<Rightarrow> map (Pair ctype) subgroups)))"
      unfolding g bins_of_Cons_eq by simp
    then obtain capacity where c: "FORM_CAPACITY svc f = Some capacity"
      by (cases "FORM_CAPACITY svc f") auto
    with h obtain ct where t: "CUTOFF_TYPES svc f = Some ct"
      by (cases "CUTOFF_TYPES svc f") auto
    with h c obtain sgs where s: "subgroups_of T cols capacity grp' = Inr sgs"
      by (cases "subgroups_of T cols capacity grp'") auto
    from h c t s have "ct = ctype" "sg \<in> set sgs" by auto
    with c t g subgroups_of_Inr [OF s] show ?thesis by auto
  qed
qed

lemma closed_bins_mem:
  assumes "(ctype, sg) \<in> set (closed_bins T svc df)"
  shows "sg \<noteq> []"
    and "\<exists>ftype capacity. FORM_CAPACITY svc ftype = Some capacity \<and>
           CUTOFF_TYPES svc ftype = Some ctype \<and>
           (\<forall>r\<in>set sg. form_type r = ftype \<and> r \<in> set (rows df)) \<and>
           (2 \<le> length sg \<longrightarrow> sum_list (map (count_of T) sg) \<le> capacity) \<and>
           ((\<forall>r\<in>set (rows df). 0 \<le> count_of T r) \<longrightarrow>
              (\<forall>r\<in>set sg. capacity < count_of T r \<longrightarrow> sg = [r]))"
proof -
  let ?S = "sort_key sort_key3 (rows df)"
  from bins_of_mem [OF assms [unfolded closed_bins_def]] obtain ftype w grp capacity where
    g: "((ftype, w), grp) \<in> set (groupby ?S)" and
    cap: "FORM_CAPACITY svc ftype = Some capacity" and ct: "CUTOFF_TYPES svc ftype = Some ctype" and
    sg: "sg \<in> set (first_fit (count_of T) capacity [] 0 grp)"
    by blast
  from g have grp: "grp = filter (\<lambda>r. group_key r = (ftype, w)) ?S"
    by (auto simp: groupby_def)
  from sg show "sg \<noteq> []" by (rule first_fit_nonempty)
  from first_fit_subset [OF sg] have sub: "set sg \<subseteq> set grp" by simp
  have a: "\<forall>r\<in>set sg. form_type r = ftype \<and> r \<in> set (rows df)"
    using sub by (auto simp: grp group_key_def)
  have b: "2 \<le> length sg \<longrightarrow> sum_list (map (count_of T) sg) \<le> capacity"
    using first_fit_capacity [OF sg] by simp
  have c: "(\<forall>r\<in>set (rows df). 0 \<le> count_of T r) \<longrightarrow>
              (\<forall>r\<in>set sg. capacity < count_of T r \<longrightarrow> sg = [r])"
  proof (intro impI ballI)
    fix r assume nn: "\<forall>r\<in>set (rows df). 0 \<le> count_of T r"
      and r: "r \<in> set sg" "capacity < count_of T r"
    from nn have "\<forall>x\<in>set ([] @ grp). 0 \<le> count_of T x" by (simp add: grp)
    from first_fit_alone [OF sg _ this _ r] show "sg = [r]" by simp
  qed
  from cap ct a b c show "\<exists>ftype capacity. FORM_CAPACITY svc ftype = Some capacity \<and>
           CUTOFF_TYPES svc ftype = Some ctype \<and>
           (\<forall>r\<in>set sg. form_type r = ftype \<and> r \<in> set (rows df)) \<and>
           (2 \<le> length sg \<longrightarrow> sum_list (map (count_of T) sg) \<le> capacity) \<and>
           ((\<forall>r\<in>set (rows df). 0 \<le> count_of T r) \<longrightarrow>
              (\<forall>r\<in>set sg. capacity < count_of T r \<longrightarrow> sg = [r]))"
    by blast
qed

lemma truncate_to_cut_row [simp]: "item.truncate (to_cut_row nr) = item.truncate (fst nr)"
  by (cases nr) (simp add: to_cut_row_def item.truncate_def)

lemma map_cutoff_mark_subgroup:
  "map (\<lambda>nr. fst (snd nr)) (mark_subgroup ctype c sg) = replicate (length sg) c"
  by (rule nth_equalityI) (simp_all add: nth_mark_subgroup)

lemma truncate_mark_subgroup:
  "map item.truncate (map to_cut_row (mark_subgroup ctype c sg)) = map item.truncate sg"
  by (rule nth_equalityI) (simp_all add: nth_mark_subgroup)

lemma ids_marked_from:
  assumes "\<forall>b\<in>set bins. snd b \<noteq> []"
  shows "remdups_adj (map (\<lambda>nr. fst (snd nr)) (marked_from c bins)) = [c..<c + length bins]"
  using assms
proof (induction c bins rule: marked_from.induct)
  case (1 c)
  show ?case by simp
next
  case (2 c ctype subgroup rest)
  let ?ys = "map (\<lambda>nr. fst (snd nr)) (marked_from (Suc c) rest)"
  from "2.prems" have ne: "subgroup \<noteq> []" by simp
  then have rne: "replicate (length subgroup) c \<noteq> []" by simp
  have "y \<noteq> c" if "y \<in> set ?ys" for y
  proof -
    from that obtain nr where "nr \<in> set (marked_from (Suc c) rest)" "y = fst (snd nr)" by auto
    with cutoff_marked_from [of nr "Suc c" rest] show ?thesis by simp
  qed
  then have "\<forall>y\<in>set ?ys. y \<noteq> c" by blast
  then have dw: "dropWhile (\<lambda>y. y = last (replicate (length subgroup) c)) ?ys = ?ys"
    using ne by (cases ?ys) auto
  have "remdups_adj (map (\<lambda>nr. fst (snd nr)) (marked_from c ((ctype, subgroup) # rest))) =
        remdups_adj (replicate (length subgroup) c @ ?ys)"
    by (simp add: map_cutoff_mark_subgroup)
  also have "\<dots> = remdups_adj (replicate (length subgroup) c) @ remdups_adj ?ys"
    using remdups_adj_append'' [OF rne, of ?ys] dw by simp
  also have "\<dots> = c # [Suc c..<Suc c + length rest]"
    using "2.IH" "2.prems" ne by (simp add: remdups_adj_replicate)
  also have "\<dots> = [c..<c + length ((ctype, subgroup) # rest)]"
    by (simp add: upt_conv_Cons del: upt_Suc)
  finally show ?case .
qed

lemma closed_bins_nonempty: "\<forall>b\<in>set (closed_bins T svc df). snd b \<noteq> []"
  using closed_bins_mem(1) by (metis prod.collapse)

lemma sort_key3_le_group_key:
  "sort_key3 a \<le> sort_key3 b \<Longrightarrow> group_key a \<le> group_key b"
  by (auto simp: sort_key3_def group_key_def less_eq_prod_simp)

lemma sorted_group_key_sort:
  "sorted (map group_key (sort_key sort_key3 rs))"
proof -
  have "sorted (map sort_key3 (sort_key sort_key3 rs))" by (rule sorted_sort_key)
  then have "sorted_wrt (\<lambda>a b. sort_key3 a \<le> sort_key3 b) (sort_key sort_key3 rs)"
    by (simp only: sorted_map)
  then have "sorted_wrt (\<lambda>a b. group_key a \<le> group_key b) (sort_key sort_key3 rs)"
    by (rule sorted_wrt_mono_rel [rotated]) (rule sort_key3_le_group_key)
  then show ?thesis by (simp only: sorted_map)
qed

lemma concat_bins_of:
  assumes "\<forall>g\<in>set gs. forms_known svc (fst (fst g)) \<and>
             (\<forall>r\<in>set (snd g). \<exists>n. row_count T cols r = Inr n)"
  shows "concat (map snd (bins_of T cols svc gs)) = concat (map snd gs)"
  using assms
proof (induction gs)
  case Nil
  show ?case by simp
next
  case (Cons g gs)
  obtain f w grp where g: "g = ((f, w), grp)" by (metis surj_pair)
  from Cons.prems g obtain capacity ctype where
    c: "FORM_CAPACITY svc f = Some capacity" and t: "CUTOFF_TYPES svc f = Some ctype"
    by (auto simp: forms_known_def)
  from Cons.prems g have "\<forall>r\<in>set grp. \<exists>n. row_count T cols r = Inr n" by simp
  then obtain sgs where s: "subgroups_of T cols capacity grp = Inr sgs"
    using subgroups_of_ok_iff [of T cols capacity grp] by blast
  have "concat sgs = grp"
    unfolding subgroups_of_Inr [OF s] by (simp add: concat_first_fit)
  with Cons show ?case
    by (simp add: g bins_of_Cons [OF c t s] o_def)
qed

lemma concat_groupby_sorted:
  "sorted (map group_key s) \<Longrightarrow> concat (map snd (groupby s)) = s"
  by (simp add: groupby_spec_groups o_def concat_spec_groups)

lemma assign_rows_flat:
  assumes "assign_rows T svc df = Inr out"
  shows "map fst out = sort_key sort_key3 (rows df)"
proof -
  let ?S = "sort_key sort_key3 (rows df)"
  from assms have "\<forall>r\<in>set ?S. forms_known svc (form_type r) \<and>
      (\<exists>n. row_count T (columns df) r = Inr n)"
    using assign_rows_ok_iff [of T svc df] by auto
  then have "\<forall>g\<in>set (groupby ?S). forms_known svc (fst (fst g)) \<and>
      (\<forall>r\<in>set (snd g). \<exists>n. row_count T (columns df) r = Inr n)"
    by (simp only: groupby_all)
  from concat_bins_of [OF this]
  have "concat (map snd (closed_bins T svc df)) = ?S"
    by (simp only: closed_bins_def concat_groupby_sorted [OF sorted_group_key_sort])
  then show ?thesis
    by (simp only: assign_rows_Inr [OF assms] map_fst_marked_from)
qed

text \<open>The small table, evaluated.\<close>

lemma example_assign: "assign_cutoffs T calculator_service example_df = Inr example_result"
  by (simp add: assign_cutoffs_def assign_rows_def sort_values_def example_df_def example_rows_def
      input_columns_def mk_row_def sort_key3_def groupby_def group_key_def calculator_service_def
      calculator_init_def default_settings_def subgroups_of_def row_count_def int_of_cell_def
      mark_subgroup_def max_length_idx_def enumerate_eq_zip upt_rec pd_DataFrame_def drop_mm_def
      to_cut_row_def example_result_def mk_cut_def cut_columns_def first_occurrences_def
      less_eq_prod_simp)

text \<open>
  Claim C4. Across one run the cutoff ids are 1, 2, ..., N: read along the output, the
  ids form the blocks 1, 2, ..., N with no gap and no repeat, where N is the number of
  closed bins. The cutoff with id \<open>i\<close> holds the records of the \<open>i\<close>-th bin
  closed, the groups being visited in the order of \<open>groupby\<close> and the bins of a group
  in the order in which the packing loop closes them; along the output the group keys
  (form type, width) ascend.
\<close>

theorem cutoff_ids_sequential:
  assumes "assign_cutoffs T svc df = Inr res"
  shows "remdups_adj (map cutoff (rows res)) = [1..<Suc (length (closed_bins T svc df))] \<and>
         (\<forall>i. 1 \<le> i \<and> i \<le> length (closed_bins T svc df) \<longrightarrow>
            map item.truncate (members res i) =
            map item.truncate (snd (closed_bins T svc df ! (i - 1)))) \<and>
         (\<exists>out. assign_rows T svc df = Inr out \<and> rows res = map to_cut_row out \<and>
            sorted (map (\<lambda>nr. group_key (fst nr)) out))"
proof (intro conjI allI impI)
  from assign_cutoffs_Inr [OF assms] obtain out where
    out: "assign_rows T svc df = Inr out" and r: "rows res = map to_cut_row out" by blast
  have "map cutoff (rows res) = map (\<lambda>nr. fst (snd nr)) (marked_from 1 (closed_bins T svc df))"
    by (simp add: r assign_rows_Inr [OF out] o_def)
  with ids_marked_from [OF closed_bins_nonempty, of 1 T svc df]
  show "remdups_adj (map cutoff (rows res)) = [1..<Suc (length (closed_bins T svc df))]"
    by simp
  have "map (\<lambda>nr. group_key (fst nr)) out = map group_key (map fst out)" by (simp add: o_def)
  also have "\<dots> = map group_key (sort_key sort_key3 (rows df))"
    by (simp only: assign_rows_flat [OF out])
  finally have "sorted (map (\<lambda>nr. group_key (fst nr)) out)"
    by (simp only: sorted_group_key_sort)
  with out r show "\<exists>out. assign_rows T svc df = Inr out \<and> rows res = map to_cut_row out \<and>
            sorted (map (\<lambda>nr. group_key (fst nr)) out)" by blast
next
  fix i assume "1 \<le> i \<and> i \<le> length (closed_bins T svc df)"
  then show "map item.truncate (members res i) =
            map item.truncate (snd (closed_bins T svc df ! (i - 1)))"
    unfolding members_eq [OF assms] by (simp add: truncate_mark_subgroup del: map_map)
qed

theorem cutoff_ids_sequential_witness:
  "assign_cutoffs example_env calculator_service example_df = Inr example_result \<and>
   remdups_adj (map cutoff (rows example_result)) = [1, 2, 3, 4] \<and>
   length (closed_bins example_env calculator_service example_df) = 4"
proof -
  let ?N = "length (closed_bins example_env calculator_service example_df)"
  have h: "assign_cutoffs example_env calculator_service example_df = Inr example_result"
    by (rule example_assign)
  have ids: "remdups_adj (map cutoff (rows example_result)) = [1, 2, 3, 4]"
    by (simp add: example_result_def mk_cut_def)
  from cutoff_ids_sequential [OF h]
  have "remdups_adj (map cutoff (rows example_result)) = [1..<Suc ?N]" by blast
  then have "length [1..<Suc ?N] = length [1, 2, 3, 4::nat]" by (simp only: ids)
  then have "?N = 4" by (simp only: length_upt) simp
  with h ids show ?thesis by blast
qed

lemma mset_assign_rows:
  assumes "assign_rows T svc df = Inr out"
  shows "mset (map fst out) = mset (rows df)"
  by (simp only: assign_rows_flat [OF assms] mset_sort)

lemma member_bin:
  assumes a: "assign_cutoffs T svc df = Inr res" and x: "x \<in> set (rows res)"
  obtains ctype sg j where
    "(ctype, sg) \<in> set (closed_bins T svc df)"
    "members res (cutoff x) = map to_cut_row (mark_subgroup ctype (cutoff x) sg)"
    "j < length sg" "members res (cutoff x) ! j = x"
proof -
  let ?B = "closed_bins T svc df"
  let ?i = "cutoff x"
  from cutoff_range [OF a x] have rng: "1 \<le> ?i \<and> ?i \<le> length ?B" .
  then have idx: "?i - 1 < length ?B" by arith
  obtain ctype sg where b: "?B ! (?i - 1) = (ctype, sg)" by (metis surj_pair)
  with idx have mem: "(ctype, sg) \<in> set ?B" by (metis nth_mem)
  from members_eq [OF a, of ?i] rng b
  have m: "members res ?i = map to_cut_row (mark_subgroup ctype ?i sg)" by simp
  from x have "x \<in> set (members res ?i)" by (simp add: members_def)
  then obtain j where "j < length (members res ?i)" "members res ?i ! j = x"
    by (auto simp: in_set_conv_nth)
  moreover have "length (members res ?i) = length sg" by (simp only: m length_map length_mark_subgroup)
  ultimately show thesis using mem m that by metis
qed

lemma map_form_type_marked:
  "map form_type (map to_cut_row (mark_subgroup ctype c sg)) = map form_type sg"
  by (rule nth_equalityI) (simp_all add: nth_mark_subgroup)

lemma map_count_marked:
  "map (\<lambda>y. cell_count T (quantity y)) (map to_cut_row (mark_subgroup ctype c sg)) =
   map (count_of T) sg"
  by (rule nth_equalityI) (simp_all add: nth_mark_subgroup count_of_def)

lemma map_quantity_marked:
  "map quantity (map to_cut_row (mark_subgroup ctype c sg)) = map quantity sg"
  by (rule nth_equalityI) (simp_all add: nth_mark_subgroup)

lemma sum_int_cells:
  "\<forall>y\<in>set M. \<exists>n. quantity y = IntCell n \<Longrightarrow>
   sum_list (map (\<lambda>y. cell_value (quantity y)) M) =
   real_of_int (sum_list (map (\<lambda>y. cell_count T (quantity y)) M))"
  by (induction M) (auto simp: cell_value_def cell_float_def cell_count_def int_of_cell_def)

lemma assign_rows_convertible:
  assumes "assign_rows T svc df = Inr out" and "r \<in> set (rows df)"
  shows "convertible T (quantity r)"
  using assms assign_rows_ok_iff [of T svc df] row_count_ok_iff [of T "columns df" r] by blast

text \<open>
  Claim C2, amended. In every output of the cutoff assignment, for every row \<open>x\<close>
  and the cutoff it belongs to (the rows with its cutoff id): the cutoff's form type is
  that of \<open>x\<close> and has a configured capacity, and every quantity of the cutoff was
  accepted by \<^verbatim>\<open>int()\<close>; a cutoff of two or more records has a sum of counts (the
  integers \<^verbatim>\<open>int(quantity)\<close> the packing loop adds up) of at most that capacity, and
  where all its quantities are integers that is the sum of the quantities; a cutoff
  whose count sum exceeds the capacity consists of \<open>x\<close> alone, whose own count exceeds
  the capacity; when no count of the table is negative, a record whose count exceeds
  the capacity stands alone in its cutoff; and no record is rejected or split (the
  output rows are the input records, each once, with their quantities).
\<close>

theorem capacity_invariant:
  assumes "assign_cutoffs T svc df = Inr res" and "x \<in> set (rows res)"
  shows "\<exists>capacity. FORM_CAPACITY svc (form_type x) = Some capacity \<and>
      (\<forall>y\<in>set (members res (cutoff x)). form_type y = form_type x \<and> convertible T (quantity y)) \<and>
      (2 \<le> length (members res (cutoff x)) \<longrightarrow>
         sum_list (map (\<lambda>y. cell_count T (quantity y)) (members res (cutoff x))) \<le> capacity) \<and>
      (2 \<le> length (members res (cutoff x)) \<and> (\<forall>y\<in>set (members res (cutoff x)). \<exists>n. quantity y = IntCell n) \<longrightarrow>
         sum_list (map (\<lambda>y. cell_value (quantity y)) (members res (cutoff x))) \<le> real_of_int capacity) \<and>
      (capacity < sum_list (map (\<lambda>y. cell_count T (quantity y)) (members res (cutoff x))) \<longrightarrow>
         (members res (cutoff x)) = [x] \<and> capacity < cell_count T (quantity x)) \<and>
      ((\<forall>r\<in>set (rows df). 0 \<le> count_of T r) \<and> capacity < cell_count T (quantity x) \<longrightarrow>
         (members res (cutoff x)) = [x]) \<and>
      mset (map item.truncate (rows res)) = mset (map item.truncate (rows df))"
proof -
  let ?M = "members res (cutoff x)"
  let ?cnt = "\<lambda>y. cell_count T (quantity y)"
  from assms obtain ctype sg j where
    mem: "(ctype, sg) \<in> set (closed_bins T svc df)" and
    M: "?M = map to_cut_row (mark_subgroup ctype (cutoff x) sg)" and
    j: "j < length sg" and xM: "?M ! j = x"
    by (rule member_bin)
  from closed_bins_mem [OF mem] obtain ftype capacity where
    cap: "FORM_CAPACITY svc ftype = Some capacity" and
    forms: "\<forall>r\<in>set sg. form_type r = ftype \<and> r \<in> set (rows df)" and
    two: "2 \<le> length sg \<longrightarrow> sum_list (map (count_of T) sg) \<le> capacity" and
    alone: "(\<forall>r\<in>set (rows df). 0 \<le> count_of T r) \<longrightarrow>
              (\<forall>r\<in>set sg. capacity < count_of T r \<longrightarrow> sg = [r])"
    by blast
  from assign_cutoffs_Inr [OF assms(1)] obtain out where
    out: "assign_rows T svc df = Inr out" and r: "rows res = map to_cut_row out" by blast
  have len: "length ?M = length sg" by (simp add: M)
  have q: "map ?cnt ?M = map (count_of T) sg" by (simp only: M map_count_marked)
  have qq: "map quantity ?M = map quantity sg" by (simp only: M map_quantity_marked)
  have f: "map form_type ?M = map form_type sg" by (simp only: M map_form_type_marked)
  have "quantity (?M ! j) = quantity (sg ! j)" "form_type (?M ! j) = form_type (sg ! j)"
    unfolding M using j by (simp_all add: nth_mark_subgroup)
  then have xq: "quantity x = quantity (sg ! j)" and xf: "form_type x = form_type (sg ! j)"
    by (simp_all only: xM)
  from j forms have fx: "form_type x = ftype" by (simp add: xf)
  have one: "?M = [x]" if "length sg = 1"
  proof -
    from that j have "j = 0" by simp
    with that len xM show ?thesis by (cases ?M) auto
  qed
  have c1: "FORM_CAPACITY svc (form_type x) = Some capacity" by (simp only: fx cap)
  have c2: "\<forall>y\<in>set ?M. form_type y = form_type x \<and> convertible T (quantity y)"
  proof
    fix y assume y: "y \<in> set ?M"
    then have "form_type y \<in> set (map form_type ?M)" by simp
    then have "form_type y \<in> form_type ` set sg" by (simp only: f set_map)
    with forms fx have a: "form_type y = form_type x" by auto
    from y have "quantity y \<in> set (map quantity ?M)" by simp
    then have "quantity y \<in> quantity ` set sg" by (simp only: qq set_map)
    then obtain r where "r \<in> set sg" "quantity y = quantity r" by auto
    with forms assign_rows_convertible [OF out, of r] have "convertible T (quantity y)" by simp
    with a show "form_type y = form_type x \<and> convertible T (quantity y)" ..
  qed
  have c3: "2 \<le> length ?M \<longrightarrow> sum_list (map ?cnt ?M) \<le> capacity"
    using two by (simp only: len q)
  have c3': "2 \<le> length ?M \<and> (\<forall>y\<in>set ?M. \<exists>n. quantity y = IntCell n) \<longrightarrow>
         sum_list (map (\<lambda>y. cell_value (quantity y)) ?M) \<le> real_of_int capacity"
  proof
    assume h: "2 \<le> length ?M \<and> (\<forall>y\<in>set ?M. \<exists>n. quantity y = IntCell n)"
    then have "sum_list (map (\<lambda>y. cell_value (quantity y)) ?M) =
               real_of_int (sum_list (map ?cnt ?M))"
      using sum_int_cells [of ?M T] by blast
    moreover from h c3 have "sum_list (map ?cnt ?M) \<le> capacity" by blast
    ultimately show "sum_list (map (\<lambda>y. cell_value (quantity y)) ?M) \<le> real_of_int capacity"
      by simp
  qed
  have c4: "capacity < sum_list (map ?cnt ?M) \<longrightarrow> ?M = [x] \<and> capacity < ?cnt x"
  proof
    assume over: "capacity < sum_list (map ?cnt ?M)"
    with c3 have "\<not> 2 \<le> length sg" by (simp add: len)
    with j have "length sg = 1" by arith
    from one [OF this] have m: "?M = [x]" .
    with over show "?M = [x] \<and> capacity < ?cnt x" by simp
  qed
  have c5: "(\<forall>r\<in>set (rows df). 0 \<le> count_of T r) \<and> capacity < ?cnt x \<longrightarrow> ?M = [x]"
  proof
    assume h: "(\<forall>r\<in>set (rows df). 0 \<le> count_of T r) \<and> capacity < ?cnt x"
    with alone j have "sg = [sg ! j]" by (simp add: xq count_of_def)
    then have "length sg = 1" by (metis length_Cons list.size(3) One_nat_def)
    from one [OF this] show "?M = [x]" .
  qed
  have "map item.truncate (rows res) = map item.truncate (map fst out)"
    by (simp add: r)
  then have c6: "mset (map item.truncate (rows res)) = mset (map item.truncate (rows df))"
    using mset_assign_rows [OF out] by (metis mset_map)
  from c1 c2 c3 c3' c4 c5 c6 show ?thesis by blast
qed

theorem capacity_invariant_witness:
  "assign_cutoffs example_env calculator_service example_df = Inr example_result \<and>
   mk_cut ''lid_400x600'' (IntCell 20) 1 400 600 1 0 \<in> set (rows example_result) \<and>
   (\<exists>capacity. FORM_CAPACITY calculator_service (form_type (mk_cut ''lid_400x600'' (IntCell 20) 1 400 600 1 0)) = Some capacity \<and>
      (\<forall>y\<in>set (members example_result (cutoff (mk_cut ''lid_400x600'' (IntCell 20) 1 400 600 1 0))). form_type y = form_type (mk_cut ''lid_400x600'' (IntCell 20) 1 400 600 1 0) \<and> convertible example_env (quantity y)) \<and>
      (2 \<le> length (members example_result (cutoff (mk_cut ''lid_400x600'' (IntCell 20) 1 400 600 1 0))) \<longrightarrow>
         sum_list (map (\<lambda>y. cell_count example_env (quantity y)) (members example_result (cutoff (mk_cut ''lid_400x600'' (IntCell 20) 1 400 600 1 0)))) \<le> capacity) \<and>
      (2 \<le> length (members example_result (cutoff (mk_cut ''lid_400x600'' (IntCell 20) 1 400 600 1 0))) \<and> (\<forall>y\<in>set (members example_result (cutoff (mk_cut ''lid_400x600'' (IntCell 20) 1 400 600 1 0))). \<exists>n. quantity y = IntCell n) \<longrightarrow>
         sum_list (map (\<lambda>y. cell_value (quantity y)) (members example_result (cutoff (mk_cut ''lid_400x600'' (IntCell 20) 1 400 600 1 0)))) \<le> real_of_int capacity) \<and>
      (capacity < sum_list (map (\<lambda>y. cell_count example_env (quantity y)) (members example_result (cutoff (mk_cut ''lid_400x600'' (IntCell 20) 1 400 600 1 0)))) \<longrightarrow>
         (members example_result (cutoff (mk_cut ''lid_400x600'' (IntCell 20) 1 400 600 1 0))) = [mk_cut ''lid_400x600'' (IntCell 20) 1 400 600 1 0] \<and> capacity < cell_count example_env (quantity (mk_cut ''lid_400x600'' (IntCell 20) 1 400 600 1 0))) \<and>
      ((\<forall>r\<in>set (rows example_df). 0 \<le> count_of example_env r) \<and> capacity < cell_count example_env (quantity (mk_cut ''lid_400x600'' (IntCell 20) 1 400 600 1 0)) \<longrightarrow>
         (members example_result (cutoff (mk_cut ''lid_400x600'' (IntCell 20) 1 400 600 1 0))) = [mk_cut ''lid_400x600'' (IntCell 20) 1 400 600 1 0]) \<and>
      mset (map item.truncate (rows example_result)) = mset (map item.truncate (rows example_df)))"
proof -
  have h: "assign_cutoffs example_env calculator_service example_df = Inr example_result"
    by (rule example_assign)
  have m: "mk_cut ''lid_400x600'' (IntCell 20) 1 400 600 1 0 \<in> set (rows example_result)"
    by (simp add: example_result_def)
  from h m capacity_invariant [OF h m] show ?thesis by (intro conjI)
qed

text \<open>
  Claim C2 as stated fails on quantities that are not integers, and its last part
  fails on negative quantities; both tables are ingested from sheets. Two records of
  quantity 7.9 and form type 1 (capacity 15) are put into one cutoff, whose quantities sum to 15.8. A record of quantity 20,
  over the capacity 15, is not alone in its cutoff: the record of quantity -10 that
  follows it joins the same cutoff.
\<close>

theorem capacity_counterexample:
  "parse_xlsx_file ideal_ops fraction_file = Inr fraction_df \<and>
   parse_xlsx_file ideal_ops negative_file = Inr negative_df \<and>
   assign_cutoffs example_env calculator_service fraction_df = Inr fraction_result \<and>
   FORM_CAPACITY calculator_service 1 = Some 15 \<and>
   map form_type (members fraction_result 1) = [1, 1] \<and>
   map quantity (members fraction_result 1) = [FloatCell (79 / 10), FloatCell (79 / 10)] \<and>
   sum_list (map (\<lambda>y. cell_value (quantity y)) (members fraction_result 1)) = 79 / 5 \<and>
   assign_cutoffs example_env calculator_service negative_df = Inr negative_result \<and>
   map form_type (members negative_result 1) = [1, 1] \<and>
   map quantity (members negative_result 1) = [IntCell 20, IntCell (- 10)]"
  by (simp add: parse_xlsx_file_def fraction_file_def negative_file_def sheet_labels_def
      rename_column_def to_row_def mk_item_def ideal_ops_def
      assign_cutoffs_def assign_rows_def sort_values_def fraction_df_def
      fraction_rows_def negative_df_def negative_rows_def
      input_columns_def mk_row_def sort_key3_def groupby_def group_key_def calculator_service_def
      calculator_init_def default_settings_def subgroups_of_def row_count_def int_of_cell_def
      trunc_int_def mark_subgroup_def max_length_idx_def enumerate_eq_zip upt_rec
      pd_DataFrame_def drop_mm_def to_cut_row_def fraction_result_def negative_result_def
      mk_cut_def cut_columns_def first_occurrences_def less_eq_prod_simp members_def
      cell_value_def cell_float_def)

lemma filter_single:
  assumes "m < length xs" and "P (xs ! m)" and "\<forall>j<length xs. j \<noteq> m \<longrightarrow> \<not> P (xs ! j)"
  shows "filter P xs = [xs ! m]"
proof -
  have xs: "xs = take m xs @ xs ! m # drop (Suc m) xs"
    using assms(1) by (rule id_take_nth_drop)
  have a: "filter P (take m xs) = []"
    unfolding filter_empty_conv
  proof
    fix y assume "y \<in> set (take m xs)"
    then obtain j where "j < m" "j < length xs" "y = xs ! j"
      using assms(1) by (auto simp: in_set_conv_nth)
    with assms(3) show "\<not> P y" by auto
  qed
  have b: "filter P (drop (Suc m) xs) = []"
    unfolding filter_empty_conv
  proof
    fix y assume "y \<in> set (drop (Suc m) xs)"
    then obtain j where "j < length xs - Suc m" "y = xs ! (Suc m + j)"
      by (auto simp: in_set_conv_nth)
    with assms(3) show "\<not> P y" by auto
  qed
  have "filter P xs = filter P (take m xs @ xs ! m # drop (Suc m) xs)"
    using xs by simp
  also have "\<dots> = [xs ! m]"
    using a b assms(2) by (simp only: filter_append filter.simps) simp
  finally show ?thesis .
qed

text \<open>
  Claim C3. In every output of the cutoff assignment, for every row \<open>x\<close> and the
  cutoff it belongs to: the form type of the cutoff has a configured cutoff-type
  constant, and there is one position \<open>m\<close> in the cutoff whose row has cutoff type 0
  while every other row carries the constant; the row at \<open>m\<close> has the maximal length
  of the cutoff and every row before it is strictly shorter, so it is the first of the
  longest. When the constant is not 0, the rows of cutoff type 0 are exactly that one.
\<close>

theorem exactly_one_reference:
  assumes "assign_cutoffs T svc df = Inr res" and "x \<in> set (rows res)"
  shows "\<exists>ctype m. CUTOFF_TYPES svc (form_type x) = Some ctype \<and>
      m < length (members res (cutoff x)) \<and>
      (\<forall>j<length (members res (cutoff x)).
         cutoff_type (members res (cutoff x) ! j) = (if j = m then 0 else ctype)) \<and>
      (\<forall>j<length (members res (cutoff x)).
         length_m (members res (cutoff x) ! j) \<le> length_m (members res (cutoff x) ! m)) \<and>
      (\<forall>j<m. length_m (members res (cutoff x) ! j) < length_m (members res (cutoff x) ! m)) \<and>
      (ctype \<noteq> 0 \<longrightarrow>
         filter (\<lambda>y. cutoff_type y = 0) (members res (cutoff x)) = [members res (cutoff x) ! m])"
proof -
  let ?M = "members res (cutoff x)"
  from assms obtain ctype sg j where
    mem: "(ctype, sg) \<in> set (closed_bins T svc df)" and
    M: "?M = map to_cut_row (mark_subgroup ctype (cutoff x) sg)" and
    j: "j < length sg" and xM: "?M ! j = x"
    by (rule member_bin)
  from closed_bins_mem [OF mem] obtain ftype where
    ne: "sg \<noteq> []" and ct: "CUTOFF_TYPES svc ftype = Some ctype" and
    forms: "\<forall>r\<in>set sg. form_type r = ftype \<and> r \<in> set (rows df)"
    by blast
  define m where "m = max_length_idx sg"
  note mp = max_length_idx_props [OF ne, folded m_def]
  have len: "length ?M = length sg" by (simp add: M)
  have nth_t: "cutoff_type (?M ! k) = (if k = m then 0 else ctype)" if "k < length sg" for k
    unfolding M using that by (simp add: nth_mark_subgroup m_def)
  have nth_l: "length_m (?M ! k) = length_m (sg ! k)" if "k < length sg" for k
    unfolding M using that by (simp add: nth_mark_subgroup)
  have "form_type (?M ! j) = form_type (sg ! j)"
    unfolding M using j by (simp add: nth_mark_subgroup)
  with forms j have fx: "form_type x = ftype" by (simp add: xM)
  have c1: "CUTOFF_TYPES svc (form_type x) = Some ctype" by (simp only: fx ct)
  have c2: "m < length ?M" using mp(1) by (simp only: len)
  have c3: "\<forall>k<length ?M. cutoff_type (?M ! k) = (if k = m then 0 else ctype)"
    using nth_t by (simp only: len) blast
  have c4: "\<forall>k<length ?M. length_m (?M ! k) \<le> length_m (?M ! m)"
    using mp(1,2) nth_l by (simp add: len)
  have c5: "\<forall>k<m. length_m (?M ! k) < length_m (?M ! m)"
    using mp(1,3) nth_l by simp
  have c6: "ctype \<noteq> 0 \<longrightarrow> filter (\<lambda>y. cutoff_type y = 0) ?M = [?M ! m]"
  proof
    assume nz: "ctype \<noteq> 0"
    show "filter (\<lambda>y. cutoff_type y = 0) ?M = [?M ! m]"
    proof (rule filter_single [OF c2])
      from c3 c2 show "cutoff_type (?M ! m) = 0" by simp
      from c3 nz show "\<forall>k<length ?M. k \<noteq> m \<longrightarrow> cutoff_type (?M ! k) \<noteq> 0" by simp
    qed
  qed
  from c1 c2 c3 c4 c5 c6 show ?thesis by blast
qed

theorem exactly_one_reference_witness:
  "assign_cutoffs example_env calculator_service example_df = Inr example_result \<and>
   mk_cut ''tray_500x300'' (IntCell 10) 1 500 300 2 8 \<in> set (rows example_result) \<and>
   members example_result 2 =
     [mk_cut ''tray_500x350'' (IntCell 3) 1 500 350 2 0, mk_cut ''tray_500x300'' (IntCell 10) 1 500 300 2 8] \<and>
   (\<exists>ctype m.
      CUTOFF_TYPES calculator_service (form_type (mk_cut ''tray_500x300'' (IntCell 10) 1 500 300 2 8)) =
        Some ctype \<and>
      m < length (members example_result (cutoff (mk_cut ''tray_500x300'' (IntCell 10) 1 500 300 2 8))) \<and>
      (\<forall>j<length (members example_result (cutoff (mk_cut ''tray_500x300'' (IntCell 10) 1 500 300 2 8))).
         cutoff_type (members example_result (cutoff (mk_cut ''tray_500x300'' (IntCell 10) 1 500 300 2 8)) ! j) =
           (if j = m then 0 else ctype)) \<and>
      (\<forall>j<length (members example_result (cutoff (mk_cut ''tray_500x300'' (IntCell 10) 1 500 300 2 8))).
         length_m (members example_result (cutoff (mk_cut ''tray_500x300'' (IntCell 10) 1 500 300 2 8)) ! j)
           \<le> length_m (members example_result (cutoff (mk_cut ''tray_500x300'' (IntCell 10) 1 500 300 2 8)) ! m)) \<and>
      (\<forall>j<m.
         length_m (members example_result (cutoff (mk_cut ''tray_500x300'' (IntCell 10) 1 500 300 2 8)) ! j)
           < length_m (members example_result (cutoff (mk_cut ''tray_500x300'' (IntCell 10) 1 500 300 2 8)) ! m)) \<and>
      (ctype \<noteq> 0 \<longrightarrow>
         filter (\<lambda>y. cutoff_type y = 0)
           (members example_result (cutoff (mk_cut ''tray_500x300'' (IntCell 10) 1 500 300 2 8))) =
         [members example_result (cutoff (mk_cut ''tray_500x300'' (IntCell 10) 1 500 300 2 8)) ! m]))"
proof -
  have h: "assign_cutoffs example_env calculator_service example_df = Inr example_result"
    by (rule example_assign)
  have m: "mk_cut ''tray_500x300'' (IntCell 10) 1 500 300 2 8 \<in> set (rows example_result)"
    by (simp add: example_result_def)
  have b: "members example_result 2 =
     [mk_cut ''tray_500x350'' (IntCell 3) 1 500 350 2 0, mk_cut ''tray_500x300'' (IntCell 10) 1 500 300 2 8]"
    by (simp add: members_def example_result_def mk_cut_def)
  from h m b exactly_one_reference [OF h m] show ?thesis by (intro conjI)
qed

lemma sort_key3_le_spec_before: "sort_key3 a \<le> sort_key3 b \<Longrightarrow> spec_before a b"
  by (auto simp: sort_key3_def spec_before_def less_eq_prod_simp)

lemma sorted_spec_before_sort: "sorted_wrt spec_before (sort_key sort_key3 rs)"
proof -
  have "sorted (map sort_key3 (sort_key sort_key3 rs))" by (rule sorted_sort_key)
  then have "sorted_wrt (\<lambda>a b. sort_key3 a \<le> sort_key3 b) (sort_key sort_key3 rs)"
    by (simp only: sorted_map)
  then show ?thesis
    by (rule sorted_wrt_mono_rel [rotated]) (rule sort_key3_le_spec_before)
qed

lemma spec_groups_nonempty: "g \<in> set (spec_groups s) \<Longrightarrow> g \<noteq> []"
  by (induction s rule: spec_groups.induct) auto

lemma spec_groups_subset: "g \<in> set (spec_groups s) \<Longrightarrow> set g \<subseteq> set s"
  using concat_spec_groups [of s] by (metis Sup_upper image_eqI set_concat)

lemma bins_of_spec_groups:
  assumes "\<forall>g\<in>set G. g \<noteq> [] \<and>
             (\<forall>r\<in>set g. FORM_CAPACITY svc (form_type r) = Some (cap (form_type r)) \<and>
                          CUTOFF_TYPES svc (form_type r) \<noteq> None \<and>
                          (\<exists>n. row_count T cols r = Inr n))"
  shows "map snd (bins_of T cols svc (map (\<lambda>g. (group_key (hd g), g)) G)) =
         concat (map (spec_group_bins (count_of T) cap) G)"
  using assms
proof (induction G)
  case Nil
  show ?case by simp
next
  case (Cons g G)
  from Cons.prems obtain r rs where g: "g = r # rs" by (cases g) auto
  from Cons.prems g obtain ctype where
    c: "FORM_CAPACITY svc (form_type r) = Some (cap (form_type r))" and
    t: "CUTOFF_TYPES svc (form_type r) = Some ctype" by auto
  from Cons.prems g have "\<forall>x\<in>set (r # rs). \<exists>n. row_count T cols x = Inr n" by simp
  then obtain sgs where s: "subgroups_of T cols (cap (form_type r)) (r # rs) = Inr sgs"
    using subgroups_of_ok_iff [of T cols "cap (form_type r)" "r # rs"] by blast
  note e = subgroups_of_Inr [OF s]
  have "map snd (bins_of T cols svc (map (\<lambda>g. (group_key (hd g), g)) (g # G))) =
        map snd (bins_of T cols svc
          (((form_type r, width_mm r), r # rs) # map (\<lambda>g. (group_key (hd g), g)) G))"
    by (simp add: g group_key_def)
  also have "\<dots> = sgs @ map snd (bins_of T cols svc (map (\<lambda>g. (group_key (hd g), g)) G))"
    by (simp add: bins_of_Cons [OF c t s] o_def)
  also have "\<dots> = concat (map (spec_group_bins (count_of T) cap) (g # G))"
    using Cons by (simp add: g e)
  finally show ?case .
qed

lemma closed_bins_spec:
  assumes "\<forall>r\<in>set (rows df). FORM_CAPACITY svc (form_type r) = Some (cap (form_type r)) \<and>
                          CUTOFF_TYPES svc (form_type r) \<noteq> None \<and>
                          (\<exists>n. row_count T (columns df) r = Inr n)"
  shows "map snd (closed_bins T svc df) =
         spec_bins (count_of T) cap (sort_key sort_key3 (rows df))"
proof -
  let ?S = "sort_key sort_key3 (rows df)"
  have "\<forall>g\<in>set (spec_groups ?S). g \<noteq> [] \<and>
             (\<forall>r\<in>set g. FORM_CAPACITY svc (form_type r) = Some (cap (form_type r)) \<and>
                          CUTOFF_TYPES svc (form_type r) \<noteq> None \<and>
                          (\<exists>n. row_count T (columns df) r = Inr n))"
  proof (intro ballI conjI)
    fix g assume g: "g \<in> set (spec_groups ?S)"
    then show "g \<noteq> []" by (rule spec_groups_nonempty)
    fix r assume "r \<in> set g"
    with spec_groups_subset [OF g] have "r \<in> set (rows df)" by auto
    with assms show "FORM_CAPACITY svc (form_type r) = Some (cap (form_type r))"
      and "CUTOFF_TYPES svc (form_type r) \<noteq> None"
      and "\<exists>n. row_count T (columns df) r = Inr n" by auto
  qed
  from bins_of_spec_groups [OF this] show ?thesis
    by (simp only: closed_bins_def spec_bins_def groupby_spec_groups [OF sorted_group_key_sort])
qed

lemma cutoff_members_marked_from:
  "map (cutoff_members (marked_from 1 B)) [1..<Suc (length B)] = map snd B"
proof (rule nth_equalityI)
  show "length (map (cutoff_members (marked_from 1 B)) [1..<Suc (length B)]) = length (map snd B)"
    by (simp only: length_map length_upt diff_Suc_1)
  fix k assume "k < length (map (cutoff_members (marked_from 1 B)) [1..<Suc (length B)])"
  then have k: "k < length B" by (simp only: length_map length_upt diff_Suc_1)
  then have "[1..<Suc (length B)] ! k = Suc k" by (simp del: upt_Suc)
  with k show "map (cutoff_members (marked_from 1 B)) [1..<Suc (length B)] ! k = map snd B ! k"
    by (simp add: cutoff_members_def filter_marked_from del: upt_Suc)
qed

text \<open>
  Claim C1, amended. For a table that has its three sort columns and its quantity
  column, each under one label, whose form types all have a configured capacity
  \<open>cap\<close> and a configured cutoff-type constant, and whose quantity cells are all
  accepted by \<^verbatim>\<open>int()\<close>, the assignment succeeds and is the procedure of the
  specification run on the counts \<^verbatim>\<open>int(quantity)\<close>: the records in output order
  are the input records (as a multiset), sorted by (form type ascending, width
  ascending, length descending); cut into maximal runs of equal (form type, width) and
  packed by first-fit accumulation of the counts (\<open>spec_bins\<close>), they give exactly
  the cutoffs of the output, cutoff \<open>i\<close> being the \<open>i\<close>-th bin, and every row lies
  in one of them.
\<close>

theorem assign_implements_procedure:
  assumes "bad_sort_label (columns df) [Col_form_type, Col_width_mm, Col_length_m] = None"
    and "count_list (columns df) Col_quantity = 1"
    and "\<forall>r\<in>set (rows df). FORM_CAPACITY svc (form_type r) = Some (cap (form_type r)) \<and>
                            CUTOFF_TYPES svc (form_type r) \<noteq> None \<and>
                            convertible T (quantity r)"
  shows "\<exists>out res. assign_rows T svc df = Inr out \<and> assign_cutoffs T svc df = Inr res \<and>
           rows res = map to_cut_row out \<and>
           mset (map fst out) = mset (rows df) \<and>
           sorted_wrt spec_before (map fst out) \<and>
           map (cutoff_members out) [1..<Suc (length (spec_bins (count_of T) cap (map fst out)))] =
             spec_bins (count_of T) cap (map fst out) \<and>
           (\<forall>nr\<in>set out. 1 \<le> fst (snd nr) \<and>
              fst (snd nr) \<le> length (spec_bins (count_of T) cap (map fst out)))"
proof -
  let ?S = "sort_key sort_key3 (rows df)"
  let ?B = "closed_bins T svc df"
  from assms(2,3) have all: "\<forall>r\<in>set (rows df).
      FORM_CAPACITY svc (form_type r) = Some (cap (form_type r)) \<and>
      CUTOFF_TYPES svc (form_type r) \<noteq> None \<and> (\<exists>n. row_count T (columns df) r = Inr n)"
    by (simp add: row_count_ok_iff)
  then have "\<forall>r\<in>set (rows df). forms_known svc (form_type r) \<and>
      (\<exists>n. row_count T (columns df) r = Inr n)"
    by (simp add: forms_known_def)
  with assms(1) obtain out where out: "assign_rows T svc df = Inr out"
    using assign_rows_ok_iff [of T svc df] by blast
  then obtain res where res: "assign_cutoffs T svc df = Inr res"
    using assign_cutoffs_ok_iff [of T svc df] by blast
  from assign_cutoffs_Inr [OF res] out have r: "rows res = map to_cut_row out" by simp
  note flat = assign_rows_flat [OF out]
  note B = closed_bins_spec [OF all]
  have len: "length (spec_bins (count_of T) cap ?S) = length ?B"
    by (simp only: B [symmetric] length_map)
  have m: "mset (map fst out) = mset (rows df)" by (rule mset_assign_rows [OF out])
  have s: "sorted_wrt spec_before (map fst out)"
    by (simp only: flat sorted_spec_before_sort)
  have "map (cutoff_members out) [1..<Suc (length ?B)] = map snd ?B"
    unfolding assign_rows_Inr [OF out] by (rule cutoff_members_marked_from)
  then have c: "map (cutoff_members out)
                  [1..<Suc (length (spec_bins (count_of T) cap (map fst out)))] =
             spec_bins (count_of T) cap (map fst out)"
    unfolding flat B [symmetric] length_map .
  have i: "\<forall>nr\<in>set out. 1 \<le> fst (snd nr) \<and>
             fst (snd nr) \<le> length (spec_bins (count_of T) cap (map fst out))"
  proof
    fix nr assume "nr \<in> set out"
    then have "nr \<in> set (marked_from 1 ?B)" by (simp only: assign_rows_Inr [OF out])
    from cutoff_marked_from [OF this] show
      "1 \<le> fst (snd nr) \<and> fst (snd nr) \<le> length (spec_bins (count_of T) cap (map fst out))"
      by (simp only: flat len) simp
  qed
  from out res r m s c i show ?thesis by blast
qed

theorem assign_implements_procedure_witness:
  "bad_sort_label (columns example_df) [Col_form_type, Col_width_mm, Col_length_m] = None \<and>
   count_list (columns example_df) Col_quantity = 1 \<and>
   list_all (\<lambda>r. FORM_CAPACITY calculator_service (form_type r) = Some (example_cap (form_type r)) \<and>
                 CUTOFF_TYPES calculator_service (form_type r) \<noteq> None \<and>
                 convertible example_env (quantity r)) (rows example_df) \<and>
   (\<exists>out res. assign_rows example_env calculator_service example_df = Inr out \<and> assign_cutoffs example_env calculator_service example_df = Inr res \<and>
           rows res = map to_cut_row out \<and>
           mset (map fst out) = mset (rows example_df) \<and>
           sorted_wrt spec_before (map fst out) \<and>
           map (cutoff_members out) [1..<Suc (length (spec_bins (count_of example_env) example_cap (map fst out)))] =
             spec_bins (count_of example_env) example_cap (map fst out) \<and>
           (\<forall>nr\<in>set out. 1 \<le> fst (snd nr) \<and>
              fst (snd nr) \<le> length (spec_bins (count_of example_env) example_cap (map fst out))))"
proof -
  have h1: "bad_sort_label (columns example_df) [Col_form_type, Col_width_mm, Col_length_m] = None"
    by (simp add: example_df_def input_columns_def)
  have h2: "count_list (columns example_df) Col_quantity = 1"
    by (simp add: example_df_def input_columns_def)
  have h3: "list_all (\<lambda>r. FORM_CAPACITY calculator_service (form_type r) =
                            Some (example_cap (form_type r)) \<and>
                 CUTOFF_TYPES calculator_service (form_type r) \<noteq> None \<and>
                 convertible example_env (quantity r)) (rows example_df)"
    by (simp add: example_df_def example_rows_def mk_row_def calculator_service_def
        calculator_init_def default_settings_def example_cap_def convertible_def int_of_cell_def)
  from h3 have h3': "\<forall>r\<in>set (rows example_df).
       FORM_CAPACITY calculator_service (form_type r) = Some (example_cap (form_type r)) \<and>
       CUTOFF_TYPES calculator_service (form_type r) \<noteq> None \<and>
       convertible example_env (quantity r)"
    by (simp only: list_all_iff)
  from h1 h2 h3 assign_implements_procedure [OF h1 h2 h3'] show ?thesis by (intro conjI)
qed

text \<open>
  Claim C1 as stated fails on a table whose quantities are not integers, and on the
  table without columns. For the table ingested from a sheet of two records of form
  type 1 and width 500 with the quantity 7.9 each, the code puts both into cutoff 1 (it adds the counts 7 and 7),
  while the procedure of the specification, adding the quantities, closes the first
  bin before the second record (15.8 exceeds the capacity 15). On the table that
  ingestion returns for a text without tokens the assignment raises.
\<close>

theorem fractional_quantity_counterexample:
  "parse_xlsx_file ideal_ops fraction_file = Inr fraction_df \<and>
   list_all (\<lambda>r. FORM_CAPACITY calculator_service (form_type r) =
                    Some (example_cap (form_type r)) \<and>
                  CUTOFF_TYPES calculator_service (form_type r) \<noteq> None) (rows fraction_df) \<and>
   (\<exists>out. assign_rows example_env calculator_service fraction_df = Inr out \<and>
      map fst out = fraction_rows \<and>
      cutoff_members out 1 = fraction_rows \<and>
      spec_bins (\<lambda>r. cell_value (quantity r)) (\<lambda>f. real_of_int (example_cap f)) (map fst out) =
        [[fraction_rows ! 0], [fraction_rows ! 1]]) \<and>
   assign_rows example_env calculator_service (Frame [] []) = Inl (KeyError_column Col_form_type)"
  by (simp add: parse_xlsx_file_def fraction_file_def sheet_labels_def rename_column_def
      to_row_def mk_item_def ideal_ops_def
      assign_rows_def sort_values_def fraction_df_def fraction_rows_def
      input_columns_def mk_row_def sort_key3_def groupby_def group_key_def calculator_service_def
      calculator_init_def default_settings_def subgroups_of_def row_count_def int_of_cell_def
      trunc_int_def mark_subgroup_def max_length_idx_def enumerate_eq_zip upt_rec
      less_eq_prod_simp cutoff_members_def spec_bins_def example_cap_def
      cell_value_def cell_float_def)

section \<open>The parser\<close>

lemma splits_sound:
  "(a, r) \<in> set (splits P s) \<Longrightarrow> s = a @ r \<and> a \<noteq> [] \<and> list_all P a"
proof (induction s arbitrary: a r)
  case Nil
  then show ?case by simp
next
  case (Cons c cs)
  from Cons.prems have Pc: "P c" by (auto split: if_splits)
  with Cons.prems have "(a, r) = ([c], cs) \<or> (\<exists>a'. a = c # a' \<and> (a', r) \<in> set (splits P cs))"
    by auto
  then show ?case
  proof
    assume "(a, r) = ([c], cs)"
    with Pc show ?thesis by simp
  next
    assume "\<exists>a'. a = c # a' \<and> (a', r) \<in> set (splits P cs)"
    then obtain a' where "a = c # a'" "(a', r) \<in> set (splits P cs)" by blast
    with Cons.IH [of a' r] Pc show ?thesis by simp
  qed
qed

lemma lit_iff: "r \<in> set (lit c s) \<longleftrightarrow> s = c # r"
  by (cases s) auto

lemma splits_longest:
  assumes "a \<noteq> []" and "list_all P a" and "r = [] \<or> \<not> P (hd r)"
  shows "\<exists>rest. splits P (a @ r) = (a, r) # rest"
  using assms
proof (induction a)
  case Nil
  then show ?case by simp
next
  case (Cons c a)
  show ?case
  proof (cases "a = []")
    case True
    from Cons.prems(3) have "splits P r = []" by (cases r) auto
    with True Cons.prems(2) show ?thesis by simp
  next
    case False
    with Cons obtain rest where "splits P (a @ r) = (a, r) # rest" by auto
    with Cons.prems(2) show ?thesis by simp
  qed
qed

lemma splits_append:
  assumes "a \<noteq> []" and "list_all P a"
  shows "\<exists>shorter. splits P (a @ b) =
           map (\<lambda>(x, r). (a @ x, r)) (splits P b) @ (a, b) # shorter"
  using assms
proof (induction a)
  case Nil
  then show ?case by simp
next
  case (Cons c a)
  show ?case
  proof (cases "a = []")
    case True
    with Cons.prems(2) show ?thesis by simp
  next
    case False
    with Cons obtain sh where
      "splits P (a @ b) = map (\<lambda>(x, r). (a @ x, r)) (splits P b) @ (a, b) # sh" by auto
    with Cons.prems(2) show ?thesis by (simp add: case_prod_unfold)
  qed
qed

lemma digits_lit:
  assumes "digit_run T W" and "\<not> is_digit T c"
  shows "concat (map (\<lambda>(w, r3). concat (map (K w) (lit c r3))) (splits (is_digit T) (W @ c # r))) =
         concat [K W r]"
  using assms(1) unfolding digit_run_def
proof (induction W arbitrary: K)
  case Nil
  then show ?case by simp
next
  case (Cons d W)
  show ?case
  proof (cases "W = []")
    case True
    with Cons.prems assms(2) show ?thesis by simp
  next
    case False
    then obtain e W' where W: "W = e # W'" by (cases W) auto
    with Cons.prems have "is_digit T e" by simp
    with assms(2) have "e \<noteq> c" by auto
    then have l: "lit c (W @ c # r) = []" by (simp add: W)
    from Cons.prems False have "W \<noteq> [] \<and> list_all (is_digit T) W" by simp
    from Cons.IH [OF this, of "\<lambda>w. K (d # w)"] Cons.prems l show ?thesis
      by (simp add: map_concat o_def case_prod_unfold)
  qed
qed

lemma not_digit_x [simp]: "\<not> is_digit T 120" and not_digit_us [simp]: "\<not> is_digit T 95"
  by (simp_all add: is_digit_def)

lemma match_dims_decomposed:
  assumes "digit_run T w" "digit_run T l" "digit_run T p"
  shows "match_dims T (95 # w @ 120 # l @ 120 # p @ 95 # r) =
         map (\<lambda>(f, r9). (w, l, p, f)) (splits (is_digit T) r)"
  unfolding match_dims_def
  by (simp add: digits_lit [OF assms(1)] digits_lit [OF assms(2)] digits_lit [OF assms(3)])

lemma match_dims_sound:
  assumes "(w, l, p, f) \<in> set (match_dims T r1)"
  shows "\<exists>r9. r1 = 95 # w @ 120 # l @ 120 # p @ 95 # f @ r9 \<and>
           digit_run T w \<and> digit_run T l \<and> digit_run T p \<and> digit_run T f"
proof -
  from assms obtain r2 r3 r4 r5 r6 r7 r8 r9 where
    "r2 \<in> set (lit 95 r1)" "(w, r3) \<in> set (splits (is_digit T) r2)"
    "r4 \<in> set (lit 120 r3)" "(l, r5) \<in> set (splits (is_digit T) r4)"
    "r6 \<in> set (lit 120 r5)" "(p, r7) \<in> set (splits (is_digit T) r6)"
    "r8 \<in> set (lit 95 r7)" "(f, r9) \<in> set (splits (is_digit T) r8)"
    unfolding match_dims_def by auto
  then show ?thesis
    by (auto simp: lit_iff digit_run_def dest!: splits_sound)
qed

lemma filter_us_digits: "list_all (is_digit T) w \<Longrightarrow> filter (\<lambda>c. c = 95) w = []"
  by (induction w) (auto simp: is_digit_def split: if_splits)

lemma match_dims_underscores:
  assumes "m \<in> set (match_dims T r)"
  shows "2 \<le> length (filter (\<lambda>c. c = 95) r)"
proof -
  obtain w l p f where "m = (w, l, p, f)" by (metis prod_cases4)
  with match_dims_sound assms obtain r9 where
    "r = 95 # w @ 120 # l @ 120 # p @ 95 # f @ r9" by blast
  then show ?thesis by simp
qed

lemma re_match_conforming:
  assumes "word_run T name" "digit_run T w" "digit_run T l" "digit_run T p" "digit_run T f"
  shows "re_match T (item_identifier name w l p f) = Some (name, w, l, p, f)"
proof -
  let ?tail = "w @ 120 # l @ 120 # p @ 95 # f"
  let ?G = "\<lambda>(nm, r1). map (\<lambda>(w, l, p, f). (nm, w, l, p, f)) (match_dims T r1)"
  have s: "item_identifier name w l p f = name @ 95 # ?tail"
    by (simp add: item_identifier_def)
  have re: "re_matches T t = concat (map ?G (splits (is_word T) t))" for t
    by (simp add: re_matches_def case_prod_unfold)
  from assms(1) obtain shorter where
    sp: "splits (is_word T) (name @ 95 # ?tail) =
           map (\<lambda>(x, r). (name @ x, r)) (splits (is_word T) (95 # ?tail))
             @ (name, 95 # ?tail) # shorter"
    using splits_append [of name "is_word T" "95 # ?tail"] by (auto simp: word_run_def)
  have one: "length (filter (\<lambda>c. c = 95) ?tail) = 1"
    using assms(2-5) filter_us_digits [of T] by (simp add: digit_run_def)
  have none: "match_dims T r = []" if "(x, r) \<in> set (splits (is_word T) (95 # ?tail))" for x r
  proof (rule ccontr)
    assume "match_dims T r \<noteq> []"
    then obtain m where "m \<in> set (match_dims T r)" by (cases "match_dims T r") auto
    from match_dims_underscores [OF this] have two: "2 \<le> length (filter (\<lambda>c. c = 95) r)" .
    from splits_sound [OF that] have eq: "95 # ?tail = x @ r" and "x \<noteq> []" by simp_all
    then obtain x' where "x = 95 # x'" "?tail = x' @ r" by (cases x) auto
    then have "length (filter (\<lambda>c. c = 95) ?tail) =
               length (filter (\<lambda>c. c = 95) x') + length (filter (\<lambda>c. c = 95) r)"
      by (metis filter_append length_append)
    with one two show False by simp
  qed
  have longer: "concat (map ?G (map (\<lambda>(x, r). (name @ x, r)) (splits (is_word T) (95 # ?tail)))) = []"
    using none by (auto simp: case_prod_unfold)
  from assms(5) obtain rest where f: "splits (is_digit T) f = (f, []) # rest"
    using splits_longest [of f "is_digit T" "[]"] by (auto simp: digit_run_def)
  have here: "?G (name, 95 # ?tail) =
              (name, w, l, p, f) # map (\<lambda>(f', r9). (name, w, l, p, f')) rest"
    by (simp add: match_dims_decomposed [OF assms(2-4)] f case_prod_unfold o_def)
  have "re_matches T (item_identifier name w l p f) =
        (name, w, l, p, f) # map (\<lambda>(f', r9). (name, w, l, p, f')) rest @ concat (map ?G shorter)"
    unfolding s re sp using longer here by (simp del: append_assoc)
  then show ?thesis by (simp add: re_match_def)
qed

lemma digit_val_ascii: "d < 10 \<Longrightarrow> digit_val T (48 + d) = d"
  by (simp add: digit_val_def)

lemma is_digit_ascii: "d < 10 \<Longrightarrow> is_digit T (48 + d)"
  by (simp add: is_digit_def)

lemma digit_run_str_nat: "digit_run T (str_nat n)"
proof (induction n rule: str_nat.induct)
  case (1 n)
  show ?case
  proof (cases "n < 10")
    case True
    then show ?thesis
      by (subst str_nat.simps) (simp add: digit_run_def is_digit_ascii)
  next
    case False
    with 1 have "digit_run T (str_nat (n div 10))" by simp
    moreover have "is_digit T (48 + n mod 10)" by (simp add: is_digit_ascii)
    ultimately show ?thesis using False
      by (subst str_nat.simps) (simp add: digit_run_def)
  qed
qed

lemma digits_value_str_nat: "digits_value T (str_nat n) = n"
  unfolding digits_value_def
proof (induction n rule: str_nat.induct)
  case (1 n)
  show ?case
  proof (cases "n < 10")
    case True
    then show ?thesis by (subst str_nat.simps) (simp add: digit_val_ascii)
  next
    case False
    with 1 have "fold (\<lambda>c n. 10 * n + digit_val T c) (str_nat (n div 10)) 0 = n div 10" by simp
    with False show ?thesis
      by (subst str_nat.simps) (simp add: digit_val_ascii)
  qed
qed

lemma digit_val_less: "is_digit T c \<Longrightarrow> digit_val T c < 10"
proof (cases "c < 128")
  case True
  assume "is_digit T c"
  with True have "48 \<le> c \<and> c \<le> 57" by (simp add: is_digit_def)
  then have "c - 48 < 10" by arith
  with True show ?thesis by (simp add: digit_val_def)
next
  case False
  assume "is_digit T c"
  with False obtain d where "uni_decimal T c = Some d" by (auto simp: is_digit_def)
  with False show ?thesis by (cases d) (simp_all add: digit_val_def)
qed

lemma fold_digits_bound:
  "list_all (is_digit T) ds \<Longrightarrow>
   fold (\<lambda>c n. 10 * n + digit_val T c) ds a < (a + 1) * 10 ^ length ds"
proof (induction ds arbitrary: a)
  case Nil
  show ?case by simp
next
  case (Cons d ds)
  from Cons.prems have d: "digit_val T d < 10" by (simp add: digit_val_less)
  from Cons.prems have "list_all (is_digit T) ds" by simp
  from Cons.IH [OF this, of "10 * a + digit_val T d"]
  have lt: "fold (\<lambda>c n. 10 * n + digit_val T c) ds (10 * a + digit_val T d)
          < (10 * a + digit_val T d + 1) * 10 ^ length ds" .
  from d have "10 * a + digit_val T d + 1 \<le> (a + 1) * 10" by simp
  then have "(10 * a + digit_val T d + 1) * 10 ^ length ds \<le> ((a + 1) * 10) * 10 ^ length ds"
    by (rule mult_le_mono1)
  also have "\<dots> = (a + 1) * 10 ^ length (d # ds)" by (simp add: algebra_simps)
  finally have le: "(10 * a + digit_val T d + 1) * 10 ^ length ds \<le> (a + 1) * 10 ^ length (d # ds)" .
  have "fold (\<lambda>c n. 10 * n + digit_val T c) (d # ds) a =
        fold (\<lambda>c n. 10 * n + digit_val T c) ds (10 * a + digit_val T d)" by simp
  with lt le show ?case by (simp only: less_le_trans)
qed

lemma digits_value_bound: "list_all (is_digit T) ds \<Longrightarrow> digits_value T ds < 10 ^ length ds"
  unfolding digits_value_def using fold_digits_bound [of T ds 0] by simp

lemma length_str_nat: "n < 10 ^ k \<Longrightarrow> 0 < k \<Longrightarrow> length (str_nat n) \<le> k"
proof (induction n arbitrary: k rule: str_nat.induct)
  case (1 n)
  show ?case
  proof (cases "n < 10")
    case True
    with "1.prems" show ?thesis by (subst str_nat.simps) simp
  next
    case False
    from "1.prems" obtain k' where k: "k = Suc k'" by (cases k) auto
    with "1.prems" have "n div 10 < 10 ^ k'" by (simp add: less_mult_imp_div_less mult.commute)
    moreover from False "1.prems" k have "0 < k'" by (cases k') auto
    ultimately have "length (str_nat (n div 10)) \<le> k'" using "1.IH" [OF False] by blast
    with False k show ?thesis by (subst str_nat.simps) simp
  qed
qed

lemma py_int_short:
  "length ds \<le> 4300 \<Longrightarrow> py_int T ds = Inr (int (digits_value T ds))"
  by (simp add: py_int_def max_str_digits_def)

lemma py_int_long: "4300 < length ds \<Longrightarrow> py_int T ds = Inl ValueError_int"
  by (simp add: py_int_def max_str_digits_def)

lemma py_str_value: "py_str (int n) = str_nat n"
  by (simp add: py_str_def)

lemma length_py_str_value:
  assumes "digit_run T ds"
  shows "length (py_str (int (digits_value T ds))) \<le> length ds"
proof -
  from assms have "digits_value T ds < 10 ^ length ds" "0 < length ds"
    by (simp_all add: digit_run_def digits_value_bound)
  then show ?thesis unfolding py_str_value by (rule length_str_nat)
qed

lemma parse_item_name_conforming:
  assumes "word_run T name" "digit_run T w" "digit_run T l" "digit_run T p" "digit_run T f"
  shows "parse_item_name T (item_identifier name w l p f) =
     (case py_int T w of
        Inl e \<Rightarrow> Inl e
      | Inr wv \<Rightarrow>
          (case py_int T l of
             Inl e \<Rightarrow> Inl e
           | Inr lv \<Rightarrow>
               (case py_int T p of
                  Inl e \<Rightarrow> Inl e
                | Inr pv \<Rightarrow>
                    (case py_int T f of
                       Inl e \<Rightarrow> Inl e
                     | Inr fv \<Rightarrow>
                         Inr \<lparr>parsed_name = name, parsed_width_mm = wv, parsed_length_mm = lv,
                              parsed_projection_mm = pv, parsed_form_type = fv\<rparr>))))"
  by (simp add: parse_item_name_def re_match_conforming [OF assms])

text \<open>
  Claim C8, amended. For every identifier that fully matches the grammar, with name
  \<open>name\<close> and digit runs \<open>w\<close>, \<open>l\<close>, \<open>p\<close>, \<open>f\<close> of at most 4300 digits each:
  parsing gives the name verbatim and the decimal values of the four runs; the
  identifier reconstructed from these fields matches the grammar again, and parsing it
  gives the same name and the same four numbers.
\<close>

theorem parse_round_trip:
  assumes "word_run T name" "digit_run T w" "digit_run T l" "digit_run T p" "digit_run T f"
    and "length w \<le> 4300" "length l \<le> 4300" "length p \<le> 4300" "length f \<le> 4300"
  shows "\<exists>r. parse_item_name T (item_identifier name w l p f) = Inr r \<and>
           r = \<lparr>parsed_name = name, parsed_width_mm = int (digits_value T w),
                parsed_length_mm = int (digits_value T l),
                parsed_projection_mm = int (digits_value T p),
                parsed_form_type = int (digits_value T f)\<rparr> \<and>
           conforms T (reconstruct r) \<and>
           parse_item_name T (reconstruct r) = Inr r"
proof -
  let ?r = "\<lparr>parsed_name = name, parsed_width_mm = int (digits_value T w),
                parsed_length_mm = int (digits_value T l),
                parsed_projection_mm = int (digits_value T p),
                parsed_form_type = int (digits_value T f)\<rparr>"
  have a: "parse_item_name T (item_identifier name w l p f) = Inr ?r"
    by (simp add: parse_item_name_conforming [OF assms(1-5)] py_int_short assms(6-9))
  have rec: "reconstruct ?r =
     item_identifier name (str_nat (digits_value T w)) (str_nat (digits_value T l))
       (str_nat (digits_value T p)) (str_nat (digits_value T f))"
    by (simp add: reconstruct_def py_str_value)
  note d = digit_run_str_nat [of T]
  have b: "conforms T (reconstruct ?r)"
    unfolding rec conforms_def using assms(1) d by blast
  have len: "length (str_nat (digits_value T ds)) \<le> 4300"
    if "digit_run T ds" "length ds \<le> 4300" for ds
    using length_py_str_value [OF that(1)] that(2) unfolding py_str_value by simp
  have c: "parse_item_name T (reconstruct ?r) = Inr ?r"
    unfolding rec
    by (simp add: parse_item_name_conforming [OF assms(1) d d d d] py_int_short len assms
        digits_value_str_nat)
  from a b c show ?thesis by blast
qed

lemma conforms_last_digit:
  assumes "conforms T s"
  shows "is_digit T (last s)"
proof -
  from assms obtain name w l p f where
    "s = item_identifier name w l p f" "digit_run T f" by (auto simp: conforms_def)
  then show ?thesis
    by (auto simp: item_identifier_def digit_run_def list_all_iff)
qed

theorem parse_round_trip_witness:
  "word_run example_env [1083, 1086, 1090, 1086, 1082] \<and> digit_run example_env [1637, 1632, 1632] \<and>
   digit_run example_env (ustr ''300'') \<and> digit_run example_env (ustr ''50'') \<and>
   digit_run example_env (ustr ''1'') \<and>
   length [1637, 1632, 1632] \<le> 4300 \<and> length (ustr ''300'') \<le> 4300 \<and> length (ustr ''50'') \<le> 4300 \<and>
   length (ustr ''1'') \<le> 4300 \<and>
   parse_item_name example_env ([1083, 1086, 1090, 1086, 1082] @ [95] @ [1637, 1632, 1632] @ ustr ''x300x50_1'') =
     Inr \<lparr>parsed_name = [1083, 1086, 1090, 1086, 1082], parsed_width_mm = 500, parsed_length_mm = 300,
          parsed_projection_mm = 50, parsed_form_type = 1\<rparr> \<and>
   reconstruct \<lparr>parsed_name = [1083, 1086, 1090, 1086, 1082], parsed_width_mm = 500, parsed_length_mm = 300,
          parsed_projection_mm = 50, parsed_form_type = 1\<rparr> = [1083, 1086, 1090, 1086, 1082] @ ustr ''_500x300x50_1'' \<and>
   parse_item_name example_env ([1083, 1086, 1090, 1086, 1082] @ ustr ''_500x300x50_1'') =
     Inr \<lparr>parsed_name = [1083, 1086, 1090, 1086, 1082], parsed_width_mm = 500, parsed_length_mm = 300,
          parsed_projection_mm = 50, parsed_form_type = 1\<rparr>"
proof -
  have h: "word_run example_env [1083, 1086, 1090, 1086, 1082]" "digit_run example_env [1637, 1632, 1632]"
    "digit_run example_env (ustr ''300'')" "digit_run example_env (ustr ''50'')"
    "digit_run example_env (ustr ''1'')"
    by (simp_all add: word_run_def digit_run_def is_word_def is_digit_def example_env_def
        arabic_digit_def ustr_def)
  have n: "length [1637, 1632, 1632] \<le> 4300" "length (ustr ''300'') \<le> 4300" "length (ustr ''50'') \<le> 4300"
    "length (ustr ''1'') \<le> 4300"
    by (simp_all add: ustr_def)
  have i: "item_identifier [1083, 1086, 1090, 1086, 1082] [1637, 1632, 1632] (ustr ''300'') (ustr ''50'') (ustr ''1'') =
           [1083, 1086, 1090, 1086, 1082] @ [95] @ [1637, 1632, 1632] @ ustr ''x300x50_1''"
    by (simp add: item_identifier_def ustr_def)
  have v: "int (digits_value example_env [1637, 1632, 1632]) = 500" "int (digits_value example_env (ustr ''300'')) = 300"
    "int (digits_value example_env (ustr ''50'')) = 50" "int (digits_value example_env (ustr ''1'')) = 1"
    by (simp_all add: digits_value_def digit_val_def example_env_def arabic_digit_def ustr_def)
  have r: "reconstruct \<lparr>parsed_name = [1083, 1086, 1090, 1086, 1082], parsed_width_mm = 500, parsed_length_mm = 300,
          parsed_projection_mm = 50, parsed_form_type = 1\<rparr> = [1083, 1086, 1090, 1086, 1082] @ ustr ''_500x300x50_1''"
    by code_simp
  from parse_round_trip [OF h n] have
    "parse_item_name example_env ([1083, 1086, 1090, 1086, 1082] @ [95] @ [1637, 1632, 1632] @ ustr ''x300x50_1'') =
       Inr \<lparr>parsed_name = [1083, 1086, 1090, 1086, 1082], parsed_width_mm = 500, parsed_length_mm = 300,
          parsed_projection_mm = 50, parsed_form_type = 1\<rparr>"
    "parse_item_name example_env (reconstruct \<lparr>parsed_name = [1083, 1086, 1090, 1086, 1082], parsed_width_mm = 500, parsed_length_mm = 300,
          parsed_projection_mm = 50, parsed_form_type = 1\<rparr>) =
       Inr \<lparr>parsed_name = [1083, 1086, 1090, 1086, 1082], parsed_width_mm = 500, parsed_length_mm = 300,
          parsed_projection_mm = 50, parsed_form_type = 1\<rparr>"
    unfolding i v by blast+
  with h n r show ?thesis by (simp only:)
qed

text \<open>
  Claim C8 as stated fails on an identifier with a digit run of more than 4300 digits:
  it matches the grammar in full, and the parser raises the \<^verbatim>\<open>ValueError\<close> of
  \<^verbatim>\<open>int()\<close> on it instead of returning its fields.
\<close>

theorem long_digit_run_counterexample:
  "conforms example_env long_identifier \<and>
   parse_item_name example_env long_identifier = Inl ValueError_int"
proof
  have h: "word_run example_env (ustr ''tray'')" "digit_run example_env (replicate 4301 49)"
    "digit_run example_env [51]" "digit_run example_env [53]" "digit_run example_env [49]"
    by (simp_all add: word_run_def digit_run_def is_word_def is_digit_def list_all_iff ustr_def)
  from h show "conforms example_env long_identifier"
    unfolding long_identifier_def conforms_def by blast
  show "parse_item_name example_env long_identifier = Inl ValueError_int"
    unfolding long_identifier_def
    by (simp add: parse_item_name_conforming [OF h] py_int_long)
qed

text \<open>
  Claim C5, at the identifier \<^verbatim>\<open>tray_500x300x50_1abc\<close>: the string does not
  conform to the grammar (it ends in letters), yet the parser accepts it, reading form
  type 1 and ignoring what follows the matching prefix.
\<close>

theorem partial_match_accepted:
  "parse_item_name T (ustr ''tray_500x300x50_1abc'') =
     Inr \<lparr>parsed_name = ustr ''tray'', parsed_width_mm = 500, parsed_length_mm = 300,
          parsed_projection_mm = 50, parsed_form_type = 1\<rparr> \<and>
   \<not> conforms T (ustr ''tray_500x300x50_1abc'')"
proof
  show "parse_item_name T (ustr ''tray_500x300x50_1abc'') =
     Inr \<lparr>parsed_name = ustr ''tray'', parsed_width_mm = 500, parsed_length_mm = 300,
          parsed_projection_mm = 50, parsed_form_type = 1\<rparr>"
    by (simp add: ustr_def parse_item_name_def re_match_def re_matches_def match_dims_def
        is_word_def is_digit_def py_int_def digits_value_def digit_val_def max_str_digits_def)
  show "\<not> conforms T (ustr ''tray_500x300x50_1abc'')"
  proof
    assume "conforms T (ustr ''tray_500x300x50_1abc'')"
    from conforms_last_digit [OF this] show False by (simp add: is_digit_def ustr_def)
  qed
qed

section \<open>Ingestion and the pipeline\<close>

lemma split_ws_spaces: "list_all (is_space T) ws \<Longrightarrow> split_ws T cur ws = split_ws T cur []"
proof (induction ws arbitrary: cur)
  case Nil
  show ?case by simp
next
  case (Cons c ws)
  then have "split_ws T [] ws = split_ws T [] []" by simp
  with Cons.prems show ?case by simp
qed

lemma split_ws_space_between:
  "is_space T c \<Longrightarrow> split_ws T cur (x @ c # y) = split_ws T cur x @ split_ws T [] y"
  by (induction x arbitrary: cur) auto

lemma split_ws_dropWhile: "split_ws T [] (dropWhile (is_space T) s) = split_ws T [] s"
  by (induction s) auto

lemma split_ws_trailing:
  "split_ws T cur (rev (dropWhile (is_space T) (rev s))) = split_ws T cur s"
proof -
  let ?ws = "rev (takeWhile (is_space T) (rev s))"
  let ?s' = "rev (dropWhile (is_space T) (rev s))"
  have s: "s = ?s' @ ?ws"
    by (metis rev_append rev_rev_ident takeWhile_dropWhile_id)
  have ws: "list_all (is_space T) ?ws"
    by (simp add: list_all_iff) (meson set_takeWhileD)
  have "split_ws T cur (x @ ?ws) = split_ws T cur x" for x cur
  proof (induction x arbitrary: cur)
    case Nil
    from split_ws_spaces [OF ws] show ?case by simp
  next
    case (Cons d x)
    then show ?case by simp
  qed
  from this [of cur ?s'] s show ?thesis by simp
qed

lemma py_split_py_strip: "py_split T (py_strip T s) = py_split T s"
  by (simp add: py_split_def py_strip_def split_ws_trailing split_ws_dropWhile)

lemma is_space_newline: "is_space T 10"
  by (simp add: is_space_def)

lemma concat_split_on:
  "concat (map (py_split T) (split_on 10 cur s)) = py_split T (cur @ s)"
proof (induction s arbitrary: cur)
  case Nil
  show ?case by simp
next
  case (Cons c cs)
  show ?case
  proof (cases "c = 10")
    case True
    with Cons [of "[]"] show ?thesis
      by (simp add: py_split_def split_ws_space_between [OF is_space_newline])
  next
    case False
    with Cons [of "cur @ [c]"] show ?thesis by simp
  qed
qed

lemma tokens_py_split: "tokens T content = py_split T content"
proof -
  have "tokens T content = concat (map (py_split T) (split_on 10 [] (py_strip T content)))"
    by (simp add: tokens_def py_split_py_strip)
  also have "\<dots> = py_split T (py_strip T content)" by (simp add: concat_split_on)
  finally show ?thesis by (simp add: py_split_py_strip)
qed

lemma tokens_spaces: "list_all (is_space T) content \<Longrightarrow> tokens T content = []"
  by (simp add: tokens_py_split py_split_def split_ws_spaces)

lemma split_ws_no_space:
  "list_all (\<lambda>c. \<not> is_space T c) s \<Longrightarrow> cur @ s \<noteq> [] \<Longrightarrow> split_ws T cur s = [cur @ s]"
  by (induction s arbitrary: cur) auto

lemma map_fst_count_item:
  "map fst (count_item d k) = (if k \<in> set (map fst d) then map fst d else map fst d @ [k])"
  by (induction d k rule: count_item.induct) auto

lemma map_of_count_item:
  "map_of (count_item d t) k =
     (if k = t then Some (case map_of d t of None \<Rightarrow> 1 | Some n \<Rightarrow> n + 1) else map_of d k)"
  by (induction d t rule: count_item.induct) auto

lemma count_items_snoc: "count_items (toks @ [t]) = count_item (count_items toks) t"
  by (simp add: count_items_def)

lemma keys_count_items: "map fst (count_items toks) = first_occurrences toks"
proof (induction toks rule: rev_induct)
  case Nil
  show ?case by (simp add: count_items_def first_occurrences_def)
next
  case (snoc t toks)
  have s: "set (first_occurrences toks) = set toks" by (simp add: first_occurrences_def)
  show ?case
    unfolding count_items_snoc map_fst_count_item snoc.IH s
    by (simp add: first_occurrences_def)
qed

lemma map_of_count_items:
  "map_of (count_items toks) k =
     (if k \<in> set toks then Some (int (count_list toks k)) else None)"
proof (induction toks arbitrary: k rule: rev_induct)
  case Nil
  show ?case by (simp add: count_items_def)
next
  case (snoc t toks)
  show ?case
    unfolding count_items_snoc map_of_count_item snoc.IH
    by (auto simp: count_list_append count_list_0_iff)
qed

lemma distinct_first_occurrences: "distinct (first_occurrences xs)"
  and set_first_occurrences: "set (first_occurrences xs) = set xs"
  by (simp_all add: first_occurrences_def)

lemma count_items_eq:
  "count_items toks = map (\<lambda>k. (k, int (count_list toks k))) (first_occurrences toks)"
proof (rule nth_equalityI)
  have len: "length (count_items toks) = length (first_occurrences toks)"
    by (metis keys_count_items length_map)
  then show "length (count_items toks) =
             length (map (\<lambda>k. (k, int (count_list toks k))) (first_occurrences toks))"
    by simp
  fix i assume i: "i < length (count_items toks)"
  obtain k n where kn: "count_items toks ! i = (k, n)" by (metis surj_pair)
  have k: "k = first_occurrences toks ! i"
    using i kn by (metis keys_count_items nth_map fst_conv)
  have d: "distinct (map fst (count_items toks))"
    by (simp only: keys_count_items distinct_first_occurrences)
  from i kn have "(k, n) \<in> set (count_items toks)" by (metis nth_mem)
  with d have "map_of (count_items toks) k = Some n" by simp
  moreover have "k \<in> set toks"
    using i len k set_first_occurrences [of toks] by (metis nth_mem)
  ultimately have "n = int (count_list toks k)" by (simp add: map_of_count_items)
  with kn k i len show "count_items toks ! i =
     map (\<lambda>k. (k, int (count_list toks k))) (first_occurrences toks) ! i" by simp
qed

lemma make_record_Inr:
  "\<not> record_overflows p \<Longrightarrow>
   make_record fp p n =
     Inr \<lparr>item_name =
            parsed_name p @ [95] @ py_str (parsed_width_mm p) @ [120] @ py_str (parsed_length_mm p),
          unit_label = unit_pieces, quantity = IntCell n,
          width_m = round2 fp (true_div fp (parsed_width_mm p) 1000),
          length_m = round2 fp (true_div fp (parsed_length_mm p) 1000),
          projection_m = round2 fp (true_div fp (parsed_projection_mm p) 1000),
          form_type = parsed_form_type p,
          width_mm = parsed_width_mm p, length_mm = parsed_length_mm p\<rparr>"
  by (simp add: make_record_def div_1000_def record_overflows_def)

lemma make_record_Inl: "record_overflows p \<Longrightarrow> make_record fp p n = Inl OverflowError"
  by (auto simp: make_record_def div_1000_def record_overflows_def)

lemma make_record_ok_iff: "(\<exists>r. make_record fp p n = Inr r) \<longleftrightarrow> \<not> record_overflows p"
  using make_record_Inr [of p fp n] make_record_Inl [of p fp n] by auto

lemma record_loop_ok:
  assumes "list_all (\<lambda>kn. \<exists>p. parse_item_name T (fst kn) = Inr p \<and> \<not> record_overflows p) items"
  shows "\<exists>recs. record_loop fp T items data = Inr (data @ recs) \<and>
           list_all2 (\<lambda>kn r. \<exists>p. parse_item_name T (fst kn) = Inr p \<and> \<not> record_overflows p \<and>
                         make_record fp p (snd kn) = Inr r)
             items recs"
  using assms
proof (induction items arbitrary: data)
  case Nil
  show ?case by simp
next
  case (Cons kn items)
  obtain k n where kn: "kn = (k, n)" by (metis surj_pair)
  from Cons.prems kn obtain p where p: "parse_item_name T k = Inr p" and o: "\<not> record_overflows p"
    by auto
  from o obtain r where r: "make_record fp p n = Inr r"
    using make_record_ok_iff [of fp p n] by blast
  from Cons.prems have
    "list_all (\<lambda>kn. \<exists>p. parse_item_name T (fst kn) = Inr p \<and> \<not> record_overflows p) items"
    by simp
  from Cons.IH [OF this, of "data @ [r]"] obtain recs where
    l: "record_loop fp T items (data @ [r]) = Inr ((data @ [r]) @ recs)"
    and a: "list_all2 (\<lambda>kn r. \<exists>p. parse_item_name T (fst kn) = Inr p \<and> \<not> record_overflows p \<and>
                         make_record fp p (snd kn) = Inr r) items recs" by blast
  have "record_loop fp T (kn # items) data = Inr (data @ r # recs)"
    by (simp add: kn p r l)
  moreover have "list_all2 (\<lambda>kn r. \<exists>p. parse_item_name T (fst kn) = Inr p \<and> \<not> record_overflows p \<and>
                         make_record fp p (snd kn) = Inr r) (kn # items) (r # recs)"
    using a p o r by (simp add: kn)
  ultimately show ?case by blast
qed

lemma record_loop_fail:
  assumes "\<not> list_all (\<lambda>kn. \<exists>p. parse_item_name T (fst kn) = Inr p \<and> \<not> record_overflows p) items"
  shows "\<exists>e ks kn ks'. record_loop fp T items data = Inl e \<and> items = ks @ kn # ks' \<and>
           list_all (\<lambda>kn. \<exists>p. parse_item_name T (fst kn) = Inr p \<and> \<not> record_overflows p) ks \<and>
           (parse_item_name T (fst kn) = Inl e \<or>
            (\<exists>p. parse_item_name T (fst kn) = Inr p \<and> record_overflows p \<and> e = OverflowError))"
  using assms
proof (induction items arbitrary: data)
  case Nil
  then show ?case by simp
next
  case (Cons kn items)
  let ?ok = "\<lambda>kn. \<exists>p. parse_item_name T (fst kn) = Inr p \<and> \<not> record_overflows p"
  obtain k n where kn: "kn = (k, n)" by (metis surj_pair)
  show ?case
  proof (cases "parse_item_name T k")
    case (Inl e)
    then have "record_loop fp T (kn # items) data = Inl e" by (simp add: kn)
    moreover have "kn # items = [] @ kn # items" by simp
    moreover have "list_all ?ok []" by simp
    moreover from Inl have "parse_item_name T (fst kn) = Inl e" by (simp add: kn)
    ultimately show ?thesis by blast
  next
    case (Inr p)
    show ?thesis
    proof (cases "record_overflows p")
      case True
      with Inr have "record_loop fp T (kn # items) data = Inl OverflowError"
        by (simp add: kn make_record_Inl)
      moreover have "kn # items = [] @ kn # items" by simp
      moreover have "list_all ?ok []" by simp
      moreover from Inr True have
        "\<exists>p. parse_item_name T (fst kn) = Inr p \<and> record_overflows p \<and> OverflowError = OverflowError"
        by (simp add: kn)
      ultimately show ?thesis by blast
    next
      case False
      with Inr have ok: "?ok kn" by (simp add: kn)
      from False obtain r where r: "make_record fp p n = Inr r"
        using make_record_ok_iff [of fp p n] by blast
      from Cons.prems ok have "\<not> list_all ?ok items" by simp
      from Cons.IH [OF this, of "data @ [r]"] obtain e ks kn' ks' where
        a: "record_loop fp T items (data @ [r]) = Inl e" and b: "items = ks @ kn' # ks'" and
        c: "list_all ?ok ks" and
        d: "parse_item_name T (fst kn') = Inl e \<or>
            (\<exists>p. parse_item_name T (fst kn') = Inr p \<and> record_overflows p \<and> e = OverflowError)"
        by blast
      from a Inr r have "record_loop fp T (kn # items) data = Inl e" by (simp add: kn)
      moreover from b have "kn # items = (kn # ks) @ kn' # ks'" by simp
      moreover from c ok have "list_all ?ok (kn # ks)" by simp
      ultimately show ?thesis using d by blast
    qed
  qed
qed

lemma make_record_fields:
  assumes "make_record fp p n = Inr r"
  shows "quantity r = IntCell n \<and>
         item_name r =
           parsed_name p @ [95] @ py_str (parsed_width_mm p) @ [120] @ py_str (parsed_length_mm p) \<and>
         unit_label r = unit_pieces \<and> form_type r = parsed_form_type p \<and>
         width_mm r = parsed_width_mm p \<and> length_mm r = parsed_length_mm p \<and>
         width_m r = round2 fp (true_div fp (parsed_width_mm p) 1000) \<and>
         length_m r = round2 fp (true_div fp (parsed_length_mm p) 1000) \<and>
         projection_m r = round2 fp (true_div fp (parsed_projection_mm p) 1000)"
proof -
  from assms have "\<not> record_overflows p" using make_record_ok_iff [of fp p n] by blast
  from make_record_Inr [OF this, of fp n] assms show ?thesis by auto
qed

text \<open>
  Claim C7, amended. The tokens of a text are its maximal runs of characters that are
  not spaces. The parser runs over the keys of the count dictionary, which are the
  distinct tokens in the order of their first occurrence. If every token parses and
  none of the parsed identifiers overflows, the call returns one record per distinct
  token, in that order: the record built from the parse of the token, whose quantity
  is the number of occurrences of the token in the text, whose name, form type and
  millimetre fields are those of the parse, and whose metre fields are the rounded
  quotients by 1000. Otherwise the call fails and returns no table: its error is that
  of the first distinct token which does not parse or overflows, every distinct token
  before it being parsed and built.
\<close>

theorem token_ingestion:
  "tokens T content = py_split T content \<and>
   map fst (count_items (tokens T content)) = first_occurrences (tokens T content) \<and>
   distinct (first_occurrences (tokens T content)) \<and>
   set (first_occurrences (tokens T content)) = set (tokens T content) \<and>
   (list_all (\<lambda>t. \<exists>p. parse_item_name T t = Inr p \<and> \<not> record_overflows p) (tokens T content) \<longrightarrow>
      (\<exists>df. parse_txt_file fp T content = Inr df \<and>
         list_all2
           (\<lambda>t r. \<exists>p. parse_item_name T t = Inr p \<and>
                     make_record fp p (int (count_list (tokens T content) t)) = Inr r \<and>
                     quantity r = IntCell (int (count_list (tokens T content) t)) \<and>
                     item_name r =
                       parsed_name p @ [95] @ py_str (parsed_width_mm p) @ [120]
                         @ py_str (parsed_length_mm p) \<and>
                     unit_label r = unit_pieces \<and> form_type r = parsed_form_type p \<and>
                     width_mm r = parsed_width_mm p \<and> length_mm r = parsed_length_mm p \<and>
                     width_m r = round2 fp (true_div fp (parsed_width_mm p) 1000) \<and>
                     length_m r = round2 fp (true_div fp (parsed_length_mm p) 1000) \<and>
                     projection_m r = round2 fp (true_div fp (parsed_projection_mm p) 1000))
           (first_occurrences (tokens T content)) (rows df))) \<and>
   (\<not> list_all (\<lambda>t. \<exists>p. parse_item_name T t = Inr p \<and> \<not> record_overflows p) (tokens T content) \<longrightarrow>
      (\<exists>e ks t ks'. parse_txt_file fp T content = Inl e \<and>
         first_occurrences (tokens T content) = ks @ t # ks' \<and>
         list_all (\<lambda>t. \<exists>p. parse_item_name T t = Inr p \<and> \<not> record_overflows p) ks \<and>
         (parse_item_name T t = Inl e \<or>
          (\<exists>p. parse_item_name T t = Inr p \<and> record_overflows p \<and> e = OverflowError))))"
proof (intro conjI impI)
  let ?toks = "tokens T content"
  let ?F = "first_occurrences ?toks"
  let ?ok = "\<lambda>t. \<exists>p. parse_item_name T t = Inr p \<and> \<not> record_overflows p"
  show "tokens T content = py_split T content" by (rule tokens_py_split)
  show "map fst (count_items ?toks) = ?F" by (rule keys_count_items)
  show "distinct ?F" by (rule distinct_first_occurrences)
  show "set ?F = set ?toks" by (rule set_first_occurrences)
  have all: "list_all (\<lambda>kn. ?ok (fst kn)) (count_items ?toks) \<longleftrightarrow> list_all ?ok ?toks"
  proof -
    have "list_all (\<lambda>kn. ?ok (fst kn)) (count_items ?toks) \<longleftrightarrow>
          list_all ?ok (map fst (count_items ?toks))"
      by (simp add: list_all_iff)
    also have "\<dots> \<longleftrightarrow> list_all ?ok ?toks"
      unfolding keys_count_items by (simp add: list_all_iff set_first_occurrences)
    finally show ?thesis .
  qed
  {
    assume "list_all ?ok ?toks"
    with all have "list_all (\<lambda>kn. ?ok (fst kn)) (count_items ?toks)" by simp
    from record_loop_ok [OF this, of fp "[]"] obtain recs where
      r: "record_loop fp T (count_items ?toks) [] = Inr recs" and
      l: "list_all2 (\<lambda>kn r. \<exists>p. parse_item_name T (fst kn) = Inr p \<and> \<not> record_overflows p \<and>
                         make_record fp p (snd kn) = Inr r)
             (count_items ?toks) recs" by auto
    from l have "list_all2
           (\<lambda>t r. \<exists>p. parse_item_name T t = Inr p \<and> \<not> record_overflows p \<and>
                     make_record fp p (int (count_list ?toks t)) = Inr r)
           ?F recs"
      unfolding count_items_eq [of ?toks] by (simp add: list_all2_map1)
    then have "list_all2
           (\<lambda>t r. \<exists>p. parse_item_name T t = Inr p \<and>
                     make_record fp p (int (count_list ?toks t)) = Inr r \<and>
                     quantity r = IntCell (int (count_list ?toks t)) \<and>
                     item_name r =
                       parsed_name p @ [95] @ py_str (parsed_width_mm p) @ [120]
                         @ py_str (parsed_length_mm p) \<and>
                     unit_label r = unit_pieces \<and> form_type r = parsed_form_type p \<and>
                     width_mm r = parsed_width_mm p \<and> length_mm r = parsed_length_mm p \<and>
                     width_m r = round2 fp (true_div fp (parsed_width_mm p) 1000) \<and>
                     length_m r = round2 fp (true_div fp (parsed_length_mm p) 1000) \<and>
                     projection_m r = round2 fp (true_div fp (parsed_projection_mm p) 1000))
           ?F recs"
    proof (rule list_all2_mono)
      fix t r
      assume "\<exists>p. parse_item_name T t = Inr p \<and> \<not> record_overflows p \<and>
                     make_record fp p (int (count_list ?toks t)) = Inr r"
      then obtain p where p: "parse_item_name T t = Inr p"
        and m: "make_record fp p (int (count_list ?toks t)) = Inr r" by blast
      from p m make_record_fields [OF m] show
        "\<exists>p. parse_item_name T t = Inr p \<and>
                     make_record fp p (int (count_list ?toks t)) = Inr r \<and>
                     quantity r = IntCell (int (count_list ?toks t)) \<and>
                     item_name r =
                       parsed_name p @ [95] @ py_str (parsed_width_mm p) @ [120]
                         @ py_str (parsed_length_mm p) \<and>
                     unit_label r = unit_pieces \<and> form_type r = parsed_form_type p \<and>
                     width_mm r = parsed_width_mm p \<and> length_mm r = parsed_length_mm p \<and>
                     width_m r = round2 fp (true_div fp (parsed_width_mm p) 1000) \<and>
                     length_m r = round2 fp (true_div fp (parsed_length_mm p) 1000) \<and>
                     projection_m r = round2 fp (true_div fp (parsed_projection_mm p) 1000)"
        by blast
    qed
    moreover have "parse_txt_file fp T content = Inr (pd_DataFrame input_columns recs)"
      by (simp add: parse_txt_file_def r)
    moreover have "rows (pd_DataFrame input_columns recs) = recs"
      by (simp add: pd_DataFrame_def)
    ultimately show "\<exists>df. parse_txt_file fp T content = Inr df \<and>
         list_all2
           (\<lambda>t r. \<exists>p. parse_item_name T t = Inr p \<and>
                     make_record fp p (int (count_list (tokens T content) t)) = Inr r \<and>
                     quantity r = IntCell (int (count_list (tokens T content) t)) \<and>
                     item_name r =
                       parsed_name p @ [95] @ py_str (parsed_width_mm p) @ [120]
                         @ py_str (parsed_length_mm p) \<and>
                     unit_label r = unit_pieces \<and> form_type r = parsed_form_type p \<and>
                     width_mm r = parsed_width_mm p \<and> length_mm r = parsed_length_mm p \<and>
                     width_m r = round2 fp (true_div fp (parsed_width_mm p) 1000) \<and>
                     length_m r = round2 fp (true_div fp (parsed_length_mm p) 1000) \<and>
                     projection_m r = round2 fp (true_div fp (parsed_projection_mm p) 1000))
           (first_occurrences (tokens T content)) (rows df)" by auto
  }
  {
    assume "\<not> list_all ?ok ?toks"
    with all have "\<not> list_all (\<lambda>kn. ?ok (fst kn)) (count_items ?toks)" by simp
    from record_loop_fail [OF this, of fp "[]"] obtain e ks kn ks' where
      a: "record_loop fp T (count_items ?toks) [] = Inl e" and
      b: "count_items ?toks = ks @ kn # ks'" and
      c: "list_all (\<lambda>kn. ?ok (fst kn)) ks" and
      d: "parse_item_name T (fst kn) = Inl e \<or>
          (\<exists>p. parse_item_name T (fst kn) = Inr p \<and> record_overflows p \<and> e = OverflowError)"
      by blast
    from a have 1: "parse_txt_file fp T content = Inl e" by (simp add: parse_txt_file_def)
    from b have "map fst (count_items ?toks) = map fst ks @ fst kn # map fst ks'" by simp
    then have 2: "?F = map fst ks @ fst kn # map fst ks'" by (simp only: keys_count_items)
    from c have 3: "list_all ?ok (map fst ks)" by (simp add: list_all_iff)
    from 1 2 3 d show "\<exists>e ks t ks'. parse_txt_file fp T content = Inl e \<and>
         first_occurrences (tokens T content) = ks @ t # ks' \<and>
         list_all (\<lambda>t. \<exists>p. parse_item_name T t = Inr p \<and> \<not> record_overflows p) ks \<and>
         (parse_item_name T t = Inl e \<or>
          (\<exists>p. parse_item_name T t = Inr p \<and> record_overflows p \<and> e = OverflowError))" by blast
  }
qed

lemma process_file_pipeline:
  "process_file fp T svc file ext content =
     (case (if ext = ustr ''.txt'' then
              (case content of None \<Rightarrow> Inl ValueError_content | Some c \<Rightarrow> parse_txt_file fp T c)
            else if ext = ustr ''.xlsx'' then parse_xlsx_file fp file
            else Inl (ValueError_extension ext)) of
        Inl e \<Rightarrow> Inl e
      | Inr df \<Rightarrow> pipeline fp T svc df)"
  unfolding process_file_def pipeline_def ..

lemma process_file_txt:
  "process_file fp T svc file (ustr ''.txt'') (Some c) =
     (case parse_txt_file fp T c of Inl e \<Rightarrow> Inl e | Inr df \<Rightarrow> pipeline fp T svc df)"
  by (simp add: process_file_pipeline)


lemma assign_cutoffs_no_columns:
  "assign_cutoffs T svc (Frame [] rs) = Inl (KeyError_column Col_form_type)"
  by (simp add: assign_cutoffs_def assign_rows_def sort_values_def)

lemma pipeline_no_columns:
  "pipeline fp T svc (Frame [] rs) = Inl (KeyError_column Col_form_type)"
  by (simp add: pipeline_def assign_cutoffs_no_columns)







text \<open>
  Claim C10. For a text of spaces only (the empty text included) there are no tokens;
  token ingestion returns the table with no rows and no columns; the cutoff assignment
  fails on it with the key error of the first sort column; and so the whole call
  fails with that error instead of returning an empty table.
\<close>

theorem empty_input_raises:
  assumes "list_all (is_space T) content"
  shows "tokens T content = [] \<and>
         parse_txt_file fp T content = Inr (Frame [] []) \<and>
         assign_cutoffs T svc (Frame [] []) = Inl (KeyError_column Col_form_type) \<and>
         process_file fp T svc file (ustr ''.txt'') (Some content) =
           Inl (KeyError_column Col_form_type)"
proof -
  from tokens_spaces [OF assms] have t: "tokens T content = []" .
  then have p: "parse_txt_file fp T content = Inr (Frame [] [])"
    by (simp add: parse_txt_file_def count_items_def pd_DataFrame_def)
  have "process_file fp T svc file (ustr ''.txt'') (Some content) =
          Inl (KeyError_column Col_form_type)"
    by (simp add: process_file_txt p pipeline_no_columns)
  with t p assign_cutoffs_no_columns show ?thesis by simp
qed

theorem empty_input_raises_witness:
  "list_all (is_space example_env) ([32, 160] @ [10] @ [9, 133]) \<and>
   tokens example_env ([32, 160] @ [10] @ [9, 133]) = [] \<and>
   parse_txt_file ideal_ops example_env ([32, 160] @ [10] @ [9, 133]) = Inr (Frame [] []) \<and>
   assign_cutoffs example_env calculator_service (Frame [] []) =
     Inl (KeyError_column Col_form_type) \<and>
   process_file ideal_ops example_env calculator_service zero_quantity_file (ustr ''.txt'')
     (Some ([32, 160] @ [10] @ [9, 133])) = Inl (KeyError_column Col_form_type)"
proof -
  have h: "list_all (is_space example_env) ([32, 160] @ [10] @ [9, 133])"
    by (simp add: is_space_def example_env_def)
  from h empty_input_raises [OF h, of ideal_ops calculator_service zero_quantity_file]
  show ?thesis by blast
qed



















lemma to_row_fields [simp]: "form_type (to_row fp r) = form_type r"
  "quantity (to_row fp r) = quantity r"
  by (simp_all add: to_row_def)




lemma tokens_example_text:
  "tokens example_env example_text =
     [ustr ''tray_500x300x50_1'', ustr ''tray_500x300x50_1'', ustr ''tray_500x250x50_1'']"
  by (simp add: tokens_py_split py_split_def example_text_def is_space_def ustr_def)

lemma tokens_malformed_text:
  "tokens example_env malformed_text = [ustr ''tray_500x300x50_1'', ustr ''panel-100x200x30-1'']"
  by (simp add: tokens_py_split py_split_def malformed_text_def is_space_def ustr_def)


lemma parse_examples:
  "parse_item_name T (ustr ''tray_500x300x50_1'') =
     Inr \<lparr>parsed_name = ustr ''tray'', parsed_width_mm = 500, parsed_length_mm = 300,
          parsed_projection_mm = 50, parsed_form_type = 1\<rparr>"
  "parse_item_name T (ustr ''tray_500x250x50_1'') =
     Inr \<lparr>parsed_name = ustr ''tray'', parsed_width_mm = 500, parsed_length_mm = 250,
          parsed_projection_mm = 50, parsed_form_type = 1\<rparr>"
  "parse_item_name T (ustr ''panel_100x200x30_4'') =
     Inr \<lparr>parsed_name = ustr ''panel'', parsed_width_mm = 100, parsed_length_mm = 200,
          parsed_projection_mm = 30, parsed_form_type = 4\<rparr>"
  "parse_item_name T (ustr ''panel-100x200x30-1'') =
     Inl (ValueError_format (ustr ''panel-100x200x30-1''))"
  by (simp_all add: parse_item_name_def re_match_def re_matches_def match_dims_def is_word_def
      is_digit_def py_int_def digits_value_def digit_val_def max_str_digits_def ustr_def)

lemma small_no_overflow: "\<bar>a\<bar> \<le> 1000 \<Longrightarrow> \<not> float_overflow a"
proof -
  have "(1000::int) < 1000 * (2 ^ 1024 - 2 ^ 970)" by simp
  then show "\<bar>a\<bar> \<le> 1000 \<Longrightarrow> \<not> float_overflow a" unfolding float_overflow_def by linarith
qed

lemma big_overflow: "float_overflow (int (10 ^ 400))"
  unfolding float_overflow_def by simp

lemma fold_zeros:
  "fold (\<lambda>c n. 10 * n + digit_val T c) (replicate k 48) a = a * 10 ^ k"
  by (induction k arbitrary: a) (simp_all add: digit_val_def)

lemma digits_value_one_zeros: "digits_value T (49 # replicate k 48) = 10 ^ k"
proof -
  have "digit_val T 49 = 1" by (simp add: digit_val_def)
  then show ?thesis unfolding digits_value_def by (simp add: fold_zeros del: fold_replicate)
qed

lemma tokens_overflow: "tokens example_env overflow_token = [overflow_token]"
proof -
  have "list_all (\<lambda>c. \<not> is_space example_env c) overflow_token"
    by (simp add: list_all_iff overflow_token_def item_identifier_def ustr_def is_space_def
        example_env_def)
  moreover have "[] @ overflow_token \<noteq> []"
    by (simp add: overflow_token_def item_identifier_def)
  ultimately have "split_ws example_env [] overflow_token = [[] @ overflow_token]"
    by (rule split_ws_no_space)
  then show ?thesis by (simp add: tokens_py_split py_split_def)
qed




theorem token_ingestion_witness:
  "list_all (\<lambda>t. \<exists>p. parse_item_name example_env t = Inr p \<and> \<not> record_overflows p) (tokens example_env example_text) \<and>
   (\<exists>df. parse_txt_file ideal_ops example_env example_text = Inr df \<and>
         list_all2
           (\<lambda>t r. \<exists>p. parse_item_name example_env t = Inr p \<and>
                     make_record ideal_ops p (int (count_list (tokens example_env example_text) t)) = Inr r \<and>
                     quantity r = IntCell (int (count_list (tokens example_env example_text) t)) \<and>
                     item_name r =
                       parsed_name p @ [95] @ py_str (parsed_width_mm p) @ [120]
                         @ py_str (parsed_length_mm p) \<and>
                     unit_label r = unit_pieces \<and> form_type r = parsed_form_type p \<and>
                     width_mm r = parsed_width_mm p \<and> length_mm r = parsed_length_mm p \<and>
                     width_m r = round2 ideal_ops (true_div ideal_ops (parsed_width_mm p) 1000) \<and>
                     length_m r = round2 ideal_ops (true_div ideal_ops (parsed_length_mm p) 1000) \<and>
                     projection_m r = round2 ideal_ops (true_div ideal_ops (parsed_projection_mm p) 1000))
           (first_occurrences (tokens example_env example_text)) (rows df)) \<and>
   first_occurrences (tokens example_env example_text) =
     [ustr ''tray_500x300x50_1'', ustr ''tray_500x250x50_1''] \<and>
   count_list (tokens example_env example_text) (ustr ''tray_500x300x50_1'') = 2 \<and>
   \<not> list_all (\<lambda>t. \<exists>p. parse_item_name example_env t = Inr p \<and> \<not> record_overflows p) (tokens example_env malformed_text) \<and>
   (\<exists>e ks t ks'. parse_txt_file ideal_ops example_env malformed_text = Inl e \<and>
         first_occurrences (tokens example_env malformed_text) = ks @ t # ks' \<and>
         list_all (\<lambda>t. \<exists>p. parse_item_name example_env t = Inr p \<and> \<not> record_overflows p) ks \<and>
         (parse_item_name example_env t = Inl e \<or>
          (\<exists>p. parse_item_name example_env t = Inr p \<and> record_overflows p \<and> e = OverflowError)))"
proof -
  have o: "\<not> record_overflows \<lparr>parsed_name = n, parsed_width_mm = 500, parsed_length_mm = l,
          parsed_projection_mm = 50, parsed_form_type = 1\<rparr>" if "\<bar>l\<bar> \<le> 1000" for n l
    using that by (simp add: record_overflows_def small_no_overflow)
  have a: "list_all (\<lambda>t. \<exists>p. parse_item_name example_env t = Inr p \<and> \<not> record_overflows p) (tokens example_env example_text)"
    by (simp add: tokens_example_text parse_examples o)
  have b: "\<not> list_all (\<lambda>t. \<exists>p. parse_item_name example_env t = Inr p \<and> \<not> record_overflows p) (tokens example_env malformed_text)"
    by (simp add: tokens_malformed_text parse_examples)
  have f: "first_occurrences (tokens example_env example_text) =
           [ustr ''tray_500x300x50_1'', ustr ''tray_500x250x50_1'']"
    by (simp add: tokens_example_text first_occurrences_def ustr_def)
  have c: "count_list (tokens example_env example_text) (ustr ''tray_500x300x50_1'') = 2"
    by (simp add: tokens_example_text ustr_def)
  from token_ingestion [of example_env example_text ideal_ops] a have
    1: "\<exists>df. parse_txt_file ideal_ops example_env example_text = Inr df \<and>
         list_all2
           (\<lambda>t r. \<exists>p. parse_item_name example_env t = Inr p \<and>
                     make_record ideal_ops p (int (count_list (tokens example_env example_text) t)) = Inr r \<and>
                     quantity r = IntCell (int (count_list (tokens example_env example_text) t)) \<and>
                     item_name r =
                       parsed_name p @ [95] @ py_str (parsed_width_mm p) @ [120]
                         @ py_str (parsed_length_mm p) \<and>
                     unit_label r = unit_pieces \<and> form_type r = parsed_form_type p \<and>
                     width_mm r = parsed_width_mm p \<and> length_mm r = parsed_length_mm p \<and>
                     width_m r = round2 ideal_ops (true_div ideal_ops (parsed_width_mm p) 1000) \<and>
                     length_m r = round2 ideal_ops (true_div ideal_ops (parsed_length_mm p) 1000) \<and>
                     projection_m r = round2 ideal_ops (true_div ideal_ops (parsed_projection_mm p) 1000))
           (first_occurrences (tokens example_env example_text)) (rows df)" by blast
  from token_ingestion [of example_env malformed_text ideal_ops] b have
    2: "\<exists>e ks t ks'. parse_txt_file ideal_ops example_env malformed_text = Inl e \<and>
         first_occurrences (tokens example_env malformed_text) = ks @ t # ks' \<and>
         list_all (\<lambda>t. \<exists>p. parse_item_name example_env t = Inr p \<and> \<not> record_overflows p) ks \<and>
         (parse_item_name example_env t = Inl e \<or>
          (\<exists>p. parse_item_name example_env t = Inr p \<and> record_overflows p \<and> e = OverflowError))" by blast
  from a 1 f c b 2 show ?thesis by (intro conjI)
qed

text \<open>
  Claim C7 as stated fails on a text whose token parses but is too large: the token
  \<^verbatim>\<open>tray_1000...0x3x5_1\<close>, with 400 zeros in the width, matches the grammar and
  is parsed, and the ingestion of the text consisting of it raises
  \<^verbatim>\<open>OverflowError\<close> at the division of the width by 1000.
\<close>

theorem overflow_counterexample:
  "tokens example_env overflow_token = [overflow_token] \<and>
   parse_item_name example_env overflow_token =
     Inr \<lparr>parsed_name = ustr ''tray'', parsed_width_mm = 10 ^ 400, parsed_length_mm = 3,
          parsed_projection_mm = 5, parsed_form_type = 1\<rparr> \<and>
   parse_txt_file ideal_ops example_env overflow_token = Inl OverflowError"
proof -
  have h: "word_run example_env (ustr ''tray'')" "digit_run example_env (49 # replicate 400 48)"
    "digit_run example_env [51]" "digit_run example_env [53]" "digit_run example_env [49]"
    by (simp_all add: word_run_def digit_run_def is_word_def is_digit_def list_all_iff ustr_def)
  have v: "digits_value example_env [51] = 3" "digits_value example_env [53] = 5"
    "digits_value example_env [49] = 1"
    by (simp_all add: digits_value_def digit_val_def)
  have p: "parse_item_name example_env overflow_token =
     Inr \<lparr>parsed_name = ustr ''tray'', parsed_width_mm = 10 ^ 400, parsed_length_mm = 3,
          parsed_projection_mm = 5, parsed_form_type = 1\<rparr>"
    unfolding overflow_token_def
    by (simp add: parse_item_name_conforming [OF h] py_int_short digits_value_one_zeros v)
  have "float_overflow (10 ^ 400)" using big_overflow by simp
  then have o: "record_overflows \<lparr>parsed_name = ustr ''tray'', parsed_width_mm = 10 ^ 400,
          parsed_length_mm = 3, parsed_projection_mm = 5, parsed_form_type = 1\<rparr>"
    by (simp add: record_overflows_def)
  have c: "count_items [overflow_token] = [(overflow_token, 1)]"
    by (simp add: count_items_def)
  have "record_loop ideal_ops example_env [(overflow_token, 1)] [] = Inl OverflowError"
    by (simp only: record_loop.simps p sum.case make_record_Inl [OF o])
  then have "parse_txt_file ideal_ops example_env overflow_token = Inl OverflowError"
    by (simp only: parse_txt_file_def tokens_overflow c sum.case)
  with tokens_overflow p show ?thesis by (intro conjI)
qed

end
